theory Spec2Isabelle
  imports Complex_Main "HOL-Library.Sublist" "HOL-Library.AList"
begin

section \<open>Errors, dictionaries and the external collaborators\<close>

text \<open>
  The module \<^verbatim>\<open>intake/catalog/base.py\<close> is embedded function by function.
  A Python exception is a value of \<open>error\<close>; a call that can raise returns
  \<open>error + 'a\<close> (\<open>Inl\<close> the exception).
\<close>

datatype error =
    TypeError
  | ValueError
  | KeyError string
  | Exception string
  | OSError string

text \<open>
  A Python \<^verbatim>\<open>dict\<close> is an association list in insertion order;
  \<^verbatim>\<open>d[k] = v\<close> is \<open>AList.update k v d\<close> (an existing key keeps its place
  and takes the new value), \<^verbatim>\<open>d[k]\<close> is \<open>map_of d k\<close>.
\<close>

type_synonym ('k, 'v) dict = "('k \<times> 'v) list"

text \<open>The dict comprehension \<^verbatim>\<open>{k: v for ...}\<close> over a list of pairs.\<close>

definition dict_of :: "('k \<times> 'v) list \<Rightarrow> ('k, 'v) dict" where
  "dict_of kvs = foldl (\<lambda>d (k, v). AList.update k v d) [] kvs"

text \<open>\<^verbatim>\<open>for k in d: ... d[k]\<close>: the keys in order, each with the value stored under it.\<close>

definition dict_items :: "('k, 'v) dict \<Rightarrow> ('k \<times> 'v) list" where
  "dict_items d =
     concat (map (\<lambda>k. case map_of d k of None \<Rightarrow> [] | Some v \<Rightarrow> [(k, v)]) (remdups (map fst d)))"

definition startswith :: "string \<Rightarrow> string \<Rightarrow> bool" where
  "startswith s p = prefix p s"

definition endswith :: "string \<Rightarrow> string \<Rightarrow> bool" where
  "endswith s p = suffix p s"

text \<open>The response object of \<^verbatim>\<open>requests.get\<close>, with the three attributes the module reads.\<close>

record response =
  url :: string
  status_code :: int
  content :: string

text \<open>What \<^verbatim>\<open>CatalogConfig(path)\<close> (module \<^verbatim>\<open>.local\<close>) exposes: name, entries, plugins.\<close>

record ('e, 'p) config =
  cfg_name :: "string option"
  cfg_entries :: "(string, 'e) dict"
  cfg_plugins :: "'p list"

text \<open>
  Everything the module calls but does not define is a field of \<open>world\<close>: the clock
  (\<open>clock w k\<close> is the value of the \<open>k\<close>-th call of \<^verbatim>\<open>time.time()\<close>), the file
  system, \<^verbatim>\<open>requests\<close>, \<^verbatim>\<open>msgpack\<close>, the URL helpers, and the repository's own
  \<^verbatim>\<open>clamp\<close>, \<^verbatim>\<open>CatalogConfig\<close> and \<^verbatim>\<open>RemoteCatalogEntry\<close>, whose sources are
  not part of this module. Times (Python floats) are real numbers. The decoded
  payload of the info endpoint is a dict of lists of option dicts.
\<close>

record ('e, 'p) world =
  clock :: "nat \<Rightarrow> real"
  clamp :: "real \<Rightarrow> real"
  isdir :: "string \<Rightarrow> bool"
  listdir :: "string \<Rightarrow> error + string list"
  getmtime :: "string \<Rightarrow> error + real"
  path_join :: "string \<Rightarrow> string \<Rightarrow> string"
  urljoin :: "string \<Rightarrow> string \<Rightarrow> string"
  netloc :: "string \<Rightarrow> string"
  requests_get :: "string \<Rightarrow> error + response"
  unpackb :: "string \<Rightarrow> error + (string, (string, string) dict list) dict"
  CatalogConfig :: "string \<Rightarrow> error + ('e, 'p) config"
  RemoteCatalogEntry :: "string \<Rightarrow> (string, string) dict \<Rightarrow> error + 'e"

section \<open>The watcher: class State and its four subclasses\<close>

datatype observable = Uri string | Uris "string list"

text \<open>The subclass of a \<^verbatim>\<open>State\<close> object, with the attributes the subclass adds.\<close>

datatype variant =
    DirectoryState "nat list"
  | RemoteState string string string
  | LocalState
  | CollectionState "nat list"

record State =
  name :: "string option"
  observable :: observable
  ttl :: real
  modification_time :: real
  last_updated :: real
  variant :: variant

text \<open>\<^verbatim>\<open>State.__init__\<close>, with the subclass part given.\<close>

definition State_init ::
  "('e, 'p) world \<Rightarrow> string option \<Rightarrow> observable \<Rightarrow> real \<Rightarrow> variant \<Rightarrow> State" where
  "State_init w nm obs t v =
     \<lparr>name = nm, observable = obs, ttl = clamp w t,
      modification_time = 0, last_updated = 0, variant = v\<rparr>"

text \<open>
  \<^verbatim>\<open>State.update_modification_time(value)\<close>; \<open>now\<close> is what its call of
  \<^verbatim>\<open>time.time()\<close> returns. The result is the returned flag and the state afterwards.
\<close>

definition update_modification_time :: "State \<Rightarrow> real \<Rightarrow> real \<Rightarrow> bool \<times> State" where
  "update_modification_time s v now =
     (if now - last_updated s > ttl s
      then (v > modification_time s, s\<lparr>modification_time := v, last_updated := now\<rparr>)
      else (False, s))"

text \<open>
  \<^verbatim>\<open>State.changed()\<close>, the base behaviour that \<^verbatim>\<open>RemoteState\<close> inherits: the
  argument is evaluated first (clock reading \<open>k\<close>), the reading inside
  \<^verbatim>\<open>update_modification_time\<close> is the next one. Returns the flag, the state and the
  index of the next clock reading.
\<close>

definition State_changed :: "('e, 'p) world \<Rightarrow> State \<Rightarrow> nat \<Rightarrow> bool \<times> State \<times> nat" where
  "State_changed w s k =
     (let v = clock w k;
          (updated, s') = update_modification_time s v (clock w (Suc k))
      in (updated, s', k + 2))"

section \<open>The catalog objects and the heap\<close>

text \<open>
  Catalogs are shared by reference (a parent's \<^verbatim>\<open>_children\<close> and its state's
  \<^verbatim>\<open>catalogs\<close> hold the same objects, and \<^verbatim>\<open>walk\<close> compares catalogs by
  identity), so they live in a heap: a list of cells, the address of an object being
  its index. The \<^verbatim>\<open>State\<close> object of a catalog is referenced by that catalog
  alone and is kept inside the cell.
\<close>

record ('e, 'p) Catalog =
  state :: State
  name :: "string option"
  children :: "(string option, nat) dict"
  entries :: "(string, 'e) dict"
  plugins :: "'p list"

type_synonym ('e, 'p) heap = "('e, 'p) Catalog list"

text \<open>The tuple \<^verbatim>\<open>refresh()\<close> returns: name, children, entries, plugins.\<close>

type_synonym ('e, 'p) snapshot =
  "string option \<times> (string option, nat) dict \<times> (string, 'e) dict \<times> 'p list"

text \<open>
  An operation on the heap returns \<open>None\<close> when it has no result (the recursion
  bound is used up, or an address is not allocated, which a Python reference never
  is), and otherwise the raised error or the returned value, with the heap as the
  operation left it: an exception does not undo what was already written.
\<close>

type_synonym ('a, 's) outcome = "((error + 'a) \<times> 's) option"

text \<open>Sequencing: an exception or a missing result of the first step is the result.\<close>

definition bind :: "('a, 's) outcome \<Rightarrow> ('a \<Rightarrow> 's \<Rightarrow> ('b, 's) outcome) \<Rightarrow> ('b, 's) outcome" where
  "bind m f = (case m of None \<Rightarrow> None | Some (Inl e, s) \<Rightarrow> Some (Inl e, s) | Some (Inr x, s) \<Rightarrow> f x s)"

text \<open>
  A \<^verbatim>\<open>for\<close> loop (or list comprehension) whose body can raise: the elements in
  order, stopping at the first error.
\<close>

fun for_each :: "('a \<Rightarrow> 's \<Rightarrow> ('b, 's) outcome) \<Rightarrow> 'a list \<Rightarrow> 's \<Rightarrow> ('b list, 's) outcome" where
  "for_each f [] s = Some (Inr [], s)"
| "for_each f (x # xs) s =
     (case f x s of
        None \<Rightarrow> None
      | Some (Inl e, s') \<Rightarrow> Some (Inl e, s')
      | Some (Inr y, s') \<Rightarrow>
          (case for_each f xs s' of
             None \<Rightarrow> None
           | Some (Inl e, s'') \<Rightarrow> Some (Inl e, s'')
           | Some (Inr ys, s'') \<Rightarrow> Some (Inr (y # ys), s'')))"

text \<open>The format \<^verbatim>\<open>%d\<close> of an integer.\<close>

fun fmt_nat :: "nat \<Rightarrow> string" where
  "fmt_nat n = (if n < 10 then [''0123456789'' ! n] else fmt_nat (n div 10) @ [''0123456789'' ! (n mod 10)])"

declare fmt_nat.simps [simp del]

definition fmt_d :: "int \<Rightarrow> string" where
  "fmt_d i = (if i < 0 then CHR ''-'' # fmt_nat (nat (- i)) else fmt_nat (nat i))"

text \<open>
  The comprehension \<^verbatim>\<open>{s['name']: RemoteCatalogEntry(url=self.source_url, **s) for s in info['sources']}\<close>:
  a source without \<^verbatim>\<open>name\<close> raises \<^verbatim>\<open>KeyError\<close>, one with its own
  \<^verbatim>\<open>url\<close> option passes the keyword twice and raises \<^verbatim>\<open>TypeError\<close>.
\<close>

fun remote_entries ::
  "('e, 'p) world \<Rightarrow> string \<Rightarrow> (string, string) dict list \<Rightarrow> (string, 'e) dict \<Rightarrow> error + (string, 'e) dict" where
  "remote_entries w u [] d = Inr d"
| "remote_entries w u (s # ss) d =
     (case map_of s ''name'' of
        None \<Rightarrow> Inl (KeyError ''name'')
      | Some nm \<Rightarrow>
          if ''url'' \<in> set (map fst s) then Inl TypeError
          else (case RemoteCatalogEntry w u s of
                  Inl e \<Rightarrow> Inl e
                | Inr v \<Rightarrow> remote_entries w u ss (AList.update nm v d)))"

text \<open>\<^verbatim>\<open>RemoteState.refresh\<close>; it neither reads nor writes the heap.\<close>

definition RemoteState_refresh :: "('e, 'p) world \<Rightarrow> State \<Rightarrow> error + ('e, 'p) snapshot" where
  "RemoteState_refresh w st =
     (case (observable st, variant st) of
        (Uri obs, RemoteState base_url info_url source_url) \<Rightarrow>
          (let nm = map (\<lambda>c. if c = CHR ''.'' \<or> c = CHR '':'' then CHR ''_'' else c) (netloc w obs)
           in case requests_get w info_url of
                Inl e \<Rightarrow> Inl e
              | Inr r \<Rightarrow>
                  if status_code r \<noteq> 200
                  then Inl (Exception (url r @ '': status code '' @ fmt_d (status_code r)))
                  else (case unpackb w (content r) of
                          Inl e \<Rightarrow> Inl e
                        | Inr info \<Rightarrow>
                            (case map_of info ''sources'' of
                               None \<Rightarrow> Inl (KeyError ''sources'')
                             | Some srcs \<Rightarrow>
                                 (case remote_entries w source_url srcs [] of
                                    Inl e \<Rightarrow> Inl e
                                  | Inr es \<Rightarrow> Inr (Some nm, [], es, [])))))
      | _ \<Rightarrow> Inl TypeError)"

text \<open>\<^verbatim>\<open>LocalState.refresh\<close>.\<close>

definition LocalState_refresh :: "('e, 'p) world \<Rightarrow> State \<Rightarrow> error + ('e, 'p) snapshot" where
  "LocalState_refresh w st =
     (case observable st of
        Uri p \<Rightarrow>
          (case CatalogConfig w p of
             Inl e \<Rightarrow> Inl e
           | Inr cfg \<Rightarrow> Inr (cfg_name cfg, [], cfg_entries cfg, cfg_plugins cfg))
      | Uris _ \<Rightarrow> Inl TypeError)"

text \<open>The children dict \<^verbatim>\<open>{catalog.name: catalog for catalog in self.catalogs}\<close>.\<close>

definition children_by_name :: "('e, 'p) heap \<Rightarrow> nat list \<Rightarrow> (string option, nat) dict" where
  "children_by_name h cs = dict_of (map (\<lambda>c. (Catalog.name (h ! c), c)) cs)"

text \<open>
  The constructors and \<^verbatim>\<open>refresh\<close>/\<^verbatim>\<open>reload\<close> call each other:
  \<^verbatim>\<open>Catalog.__init__\<close> builds its state with \<^verbatim>\<open>create_state\<close> and reloads;
  \<^verbatim>\<open>CollectionState.__init__\<close> and \<^verbatim>\<open>DirectoryState.refresh\<close> construct
  catalogs; \<^verbatim>\<open>CollectionState.refresh\<close> reloads its members. The first argument
  bounds the depth of these calls (a directory tree or a chain of collections can
  be arbitrarily deep). \<^verbatim>\<open>Catalog_init\<close> takes the flattened positional arguments
  and the two keyword arguments; the new object gets the next free address once its
  first reload has succeeded.
\<close>

function (sequential) Catalog_init ::
      "nat \<Rightarrow> ('e, 'p) world \<Rightarrow> string list \<Rightarrow> string option \<Rightarrow> real \<Rightarrow> ('e, 'p) heap \<Rightarrow> (nat, ('e, 'p) heap) outcome"
  and create_state ::
      "nat \<Rightarrow> ('e, 'p) world \<Rightarrow> string option \<Rightarrow> observable \<Rightarrow> real \<Rightarrow> ('e, 'p) heap \<Rightarrow> (State, ('e, 'p) heap) outcome"
  and refresh ::
      "nat \<Rightarrow> ('e, 'p) world \<Rightarrow> State \<Rightarrow> ('e, 'p) heap \<Rightarrow> (('e, 'p) snapshot \<times> State, ('e, 'p) heap) outcome"
  and reload ::
      "nat \<Rightarrow> ('e, 'p) world \<Rightarrow> nat \<Rightarrow> ('e, 'p) heap \<Rightarrow> (unit, ('e, 'p) heap) outcome"
where
  "Catalog_init 0 w args nm t h = None"
| "Catalog_init (Suc n) w args nm t h =
     bind (create_state n w nm (if length args = 1 then Uri (hd args) else Uris args) t h) (\<lambda>st h1.
     bind (refresh n w st h1) (\<lambda>((nm', ch, en, pl), st') h2.
       Some (Inr (length h2),
             h2 @ [\<lparr>state = st', name = nm', children = ch, entries = en, plugins = pl\<rparr>])))"
| "create_state n w nm obs t h =
     (case obs of
        Uris uris \<Rightarrow>
          bind (for_each (\<lambda>uri. Catalog_init n w [uri] None 1) uris h) (\<lambda>cs h'.
            Some (Inr (State_init w nm obs t (CollectionState cs)), h'))
      | Uri s \<Rightarrow>
          if startswith s ''http://'' \<or> startswith s ''https://''
          then (let base_url = s @ ''/'' in
                Some (Inr (State_init w nm obs t
                             (RemoteState base_url (urljoin w base_url ''v1/info'')
                                                   (urljoin w base_url ''v1/source''))), h))
          else if isdir w s then Some (Inr (State_init w nm obs t (DirectoryState [])), h)
          else if endswith s ''.yml'' \<or> endswith s ''.yaml''
          then Some (Inr (State_init w nm obs t LocalState), h)
          else Some (Inl TypeError, h))"
| "refresh n w st h =
     (case variant st of
        DirectoryState _ \<Rightarrow>
          (case observable st of
             Uris _ \<Rightarrow> Some (Inl TypeError, h)
           | Uri p \<Rightarrow>
               (case listdir w p of
                  Inl e \<Rightarrow> Some (Inl e, h)
                | Inr fs \<Rightarrow>
                    bind (for_each (\<lambda>f. Catalog_init n w [path_join w p f] None 1)
                            (filter (\<lambda>f. endswith f ''.yml'' \<or> endswith f ''.yaml'') fs) h) (\<lambda>cs h'.
                      Some (Inr ((State.name st, children_by_name h' cs, [], []),
                                 st\<lparr>variant := DirectoryState cs\<rparr>), h'))))
      | RemoteState _ _ _ \<Rightarrow>
          (case RemoteState_refresh w st of
             Inl e \<Rightarrow> Some (Inl e, h)
           | Inr snap \<Rightarrow> Some (Inr (snap, st), h))
      | LocalState \<Rightarrow>
          (case LocalState_refresh w st of
             Inl e \<Rightarrow> Some (Inl e, h)
           | Inr snap \<Rightarrow> Some (Inr (snap, st), h))
      | CollectionState cs \<Rightarrow>
          bind (for_each (\<lambda>c. reload n w c) cs h) (\<lambda>_ h'.
            Some (Inr ((None, children_by_name h' cs, [], []), st), h')))"
| "reload 0 w a h = None"
| "reload (Suc n) w a h =
     (if a < length h
      then bind (refresh n w (state (h ! a)) h) (\<lambda>((nm', ch, en, pl), st') h'.
             Some (Inr (),
                   h'[a := \<lparr>state = st', name = nm', children = ch, entries = en, plugins = pl\<rparr>]))
      else None)"
  by pat_completeness auto
termination
  by (relation "measure (\<lambda>x. case x of
        Inl (Inl (n, _)) \<Rightarrow> 2 * n
      | Inl (Inr (n, _)) \<Rightarrow> 2 * n + 1
      | Inr (Inl (n, _)) \<Rightarrow> 2 * n + 1
      | Inr (Inr (n, _)) \<Rightarrow> 2 * n)") auto

declare create_state.simps [simp del] refresh.simps [simp del]

text \<open>
  \<^verbatim>\<open>Catalog.changed\<close>, which calls the \<^verbatim>\<open>changed()\<close> of the state's class. The
  machine state is the heap and the number of clock readings taken so far.
  \<^verbatim>\<open>DirectoryState.changed\<close> and \<^verbatim>\<open>CollectionState.changed\<close> build the whole list
  of the members' flags before \<^verbatim>\<open>any\<close> looks at it.
\<close>

fun changed ::
  "nat \<Rightarrow> ('e, 'p) world \<Rightarrow> nat \<Rightarrow> ('e, 'p) heap \<times> nat \<Rightarrow> (bool, ('e, 'p) heap \<times> nat) outcome" where
  "changed 0 w a (h, k) = None"
| "changed (Suc n) w a (h, k) =
     (if a < length h
      then (let st = state (h ! a) in
            case variant st of
              DirectoryState cs \<Rightarrow>
                (case observable st of
                   Uris _ \<Rightarrow> Some (Inl TypeError, (h, k))
                 | Uri p \<Rightarrow>
                     (case getmtime w p of
                        Inl e \<Rightarrow> Some (Inl e, (h, k))
                      | Inr v \<Rightarrow>
                          (let (modified, st') = update_modification_time st v (clock w k) in
                           bind (for_each (changed n w) cs (h[a := (h ! a)\<lparr>state := st'\<rparr>], Suc k))
                             (\<lambda>bs \<sigma>. Some (Inr (modified \<or> (\<exists>b \<in> set bs. b)), \<sigma>)))))
            | RemoteState _ _ _ \<Rightarrow>
                (let (updated, st', k') = State_changed w st k in
                 Some (Inr updated, (h[a := (h ! a)\<lparr>state := st'\<rparr>], k')))
            | LocalState \<Rightarrow>
                (case observable st of
                   Uris _ \<Rightarrow> Some (Inl TypeError, (h, k))
                 | Uri p \<Rightarrow>
                     (case getmtime w p of
                        Inl e \<Rightarrow> Some (Inl e, (h, k))
                      | Inr v \<Rightarrow>
                          (let (modified, st') = update_modification_time st v (clock w k) in
                           Some (Inr modified, (h[a := (h ! a)\<lparr>state := st'\<rparr>], Suc k)))))
            | CollectionState cs \<Rightarrow>
                bind (for_each (changed n w) cs (h, k))
                  (\<lambda>bs \<sigma>. Some (Inr (\<exists>b \<in> set bs. b), \<sigma>)))
      else None)"

text \<open>
  Modelled from the spec: the decorator \<^verbatim>\<open>reload_on_change\<close> of the module
  \<^verbatim>\<open>.utils\<close>, whose source is not part of this module. Every decorated read first
  checks \<^verbatim>\<open>changed\<close> and, if it is true, reloads before the body runs.
\<close>

definition reload_on_change ::
  "nat \<Rightarrow> ('e, 'p) world \<Rightarrow> nat \<Rightarrow> ('e, 'p) heap \<times> nat \<Rightarrow> (unit, ('e, 'p) heap \<times> nat) outcome" where
  "reload_on_change n w a \<sigma> =
     bind (changed n w a \<sigma>) (\<lambda>b (h, k).
       if b then (case reload n w a h of None \<Rightarrow> None | Some (r, h') \<Rightarrow> Some (r, (h', k)))
       else Some (Inr (), (h, k)))"

section \<open>Traversal\<close>

text \<open>
  What \<^verbatim>\<open>walk\<close> yields: a triple (catalog, source name, entry) with
  \<^verbatim>\<open>leaves=True\<close>, the catalog itself otherwise.
\<close>

datatype 'e item = Leaf nat string 'e | Node nat

text \<open>The attributes of the object at an address.\<close>

definition children_of :: "('e, 'p) heap \<Rightarrow> nat \<Rightarrow> (string option, nat) dict" where
  "children_of h c = (if c < length h then children (h ! c) else [])"

definition entries_of :: "('e, 'p) heap \<Rightarrow> nat \<Rightarrow> (string, 'e) dict" where
  "entries_of h c = (if c < length h then entries (h ! c) else [])"

definition name_of :: "('e, 'p) heap \<Rightarrow> nat \<Rightarrow> string option" where
  "name_of h c = (if c < length h then Catalog.name (h ! c) else None)"

text \<open>Every address that occurs as a child in the heap.\<close>

definition child_addrs :: "('e, 'p) heap \<Rightarrow> nat set" where
  "child_addrs h = (\<Union>c \<in> set h. snd ` set (children c))"

text \<open>
  The loop of \<^verbatim>\<open>walk\<close>: \<open>visited\<close> is the set of visited catalogs, the list is
  the queue. \<^verbatim>\<open>set(catalog._children.values()) - visited\<close> is iterated in some
  order Python does not fix; the model takes the order of the dict.
\<close>

function walk_loop :: "('e, 'p) heap \<Rightarrow> bool \<Rightarrow> nat set \<Rightarrow> nat list \<Rightarrow> 'e item list" where
  "walk_loop h leaves visited [] = []"
| "walk_loop h leaves visited (catalog # queue) =
     (if catalog \<in> visited then walk_loop h leaves visited queue
      else (if leaves
            then map (\<lambda>(source, e). Leaf catalog source e) (dict_items (entries_of h catalog))
            else [Node catalog])
           @ walk_loop h leaves (insert catalog visited)
               (queue @ filter (\<lambda>c. c \<notin> insert catalog visited)
                          (remdups (map snd (children_of h catalog)))))"
  by pat_completeness auto

termination walk_loop
proof (relation "inv_image (less_than <*lex*> less_than)
         (\<lambda>(h, l, v, q). (card ((set q \<union> child_addrs h) - v), length q))", goal_cases)
  case 1
  show ?case by (intro wf_inv_image wf_lex_prod wf_less_than)
next
  case (2 h leaves visited catalog queue)
  have "(set queue \<union> child_addrs h) - visited \<subseteq> (set (catalog # queue) \<union> child_addrs h) - visited"
    by auto
  moreover have "finite ((set (catalog # queue) \<union> child_addrs h) - visited)"
    by (simp add: child_addrs_def)
  ultimately have "card ((set queue \<union> child_addrs h) - visited)
      \<le> card ((set (catalog # queue) \<union> child_addrs h) - visited)"
    by (rule card_mono[rotated])
  then show ?case by auto
next
  case (3 h leaves visited catalog queue)
  let ?q = "queue @ filter (\<lambda>c. c \<notin> insert catalog visited) (remdups (map snd (children_of h catalog)))"
  have sub: "snd ` set (children_of h catalog) \<subseteq> child_addrs h"
  proof (cases "catalog < length h")
    case True
    then have "h ! catalog \<in> set h" by simp
    then have "snd ` set (children (h ! catalog)) \<subseteq> (\<Union>x \<in> set h. snd ` set (children x))"
      by blast
    then show ?thesis using True by (simp add: children_of_def child_addrs_def)
  next
    case False
    then show ?thesis by (simp add: children_of_def)
  qed
  have "(set ?q \<union> child_addrs h) - insert catalog visited
      \<subset> (set (catalog # queue) \<union> child_addrs h) - visited"
    using 3 sub by auto
  moreover have "finite ((set (catalog # queue) \<union> child_addrs h) - visited)"
    by (simp add: child_addrs_def)
  ultimately have "card ((set ?q \<union> child_addrs h) - insert catalog visited)
      < card ((set (catalog # queue) \<union> child_addrs h) - visited)"
    by (rule psubset_card_mono[rotated])
  then show ?case by simp
qed

declare walk_loop.simps(2) [simp del]

text \<open>
  \<^verbatim>\<open>Catalog.walk\<close>: the decorator revalidates the catalog when \<^verbatim>\<open>walk\<close> is
  called; the generator then runs the loop from \<^verbatim>\<open>visited, queue = set(), [self]\<close>.
\<close>

definition walk ::
  "nat \<Rightarrow> ('e, 'p) world \<Rightarrow> nat \<Rightarrow> bool \<Rightarrow> ('e, 'p) heap \<times> nat \<Rightarrow> ('e item list, ('e, 'p) heap \<times> nat) outcome" where
  "walk n w a leaves \<sigma> =
     bind (reload_on_change n w a \<sigma>) (\<lambda>_ (h, k). Some (Inr (walk_loop h leaves {} [a]), (h, k)))"

text \<open>
  \<^verbatim>\<open>self.walk()\<close> is \<^verbatim>\<open>walk(leaves=True)\<close>, whose items are triples: the
  tuples among the items.
\<close>

fun triples :: "'e item list \<Rightarrow> (nat \<times> string \<times> 'e) list" where
  "triples [] = []"
| "triples (Leaf c s e # xs) = (c, s, e) # triples xs"
| "triples (Node c # xs) = triples xs"

fun is_Leaf :: "'e item \<Rightarrow> bool" where
  "is_Leaf (Leaf c s e) = True"
| "is_Leaf (Node c) = False"

fun item_catalog :: "'e item \<Rightarrow> nat" where
  "item_catalog (Leaf c s e) = c"
| "item_catalog (Node c) = c"

text \<open>
  \<^verbatim>\<open>x, y, z = zip(*ts)\<close> for a sequence of triples: the three columns. With no
  triple at all \<^verbatim>\<open>zip()\<close> yields nothing and the unpacking into three names
  raises \<^verbatim>\<open>ValueError\<close>.
\<close>

definition zip_star3 :: "('a \<times> 'b \<times> 'c) list \<Rightarrow> error + ('a list \<times> 'b list \<times> 'c list)" where
  "zip_star3 ts =
     (if ts = [] then Inl ValueError
      else Inr (map fst ts, map (\<lambda>t. fst (snd t)) ts, map (\<lambda>t. snd (snd t)) ts))"

text \<open>Python's truth value of a name: \<^verbatim>\<open>None\<close> and the empty string are false.\<close>

definition truthy :: "string option \<Rightarrow> bool" where
  "truthy nm = (case nm of None \<Rightarrow> False | Some s \<Rightarrow> s \<noteq> [])"

text \<open>
  \<^verbatim>\<open>Catalog.get_catalogs\<close> and \<^verbatim>\<open>Catalog.get_entries\<close>. Both call
  \<^verbatim>\<open>self.walk()\<close>, that is with \<^verbatim>\<open>leaves=True\<close>. \<^verbatim>\<open>list(set(xs))\<close> keeps one
  copy of each element in an order Python does not fix; the model takes \<open>remdups xs\<close>.
\<close>

definition get_catalogs ::
  "nat \<Rightarrow> ('e, 'p) world \<Rightarrow> nat \<Rightarrow> ('e, 'p) heap \<times> nat \<Rightarrow> (string option list, ('e, 'p) heap \<times> nat) outcome" where
  "get_catalogs n w a \<sigma> =
     bind (walk n w a True \<sigma>) (\<lambda>items (h, k).
       case zip_star3 (triples items) of
         Inl e \<Rightarrow> Some (Inl e, (h, k))
       | Inr (catalogs, _, _) \<Rightarrow>
           Some (Inr (remdups (filter truthy (map (name_of h) catalogs))), (h, k)))"

definition get_entries ::
  "nat \<Rightarrow> ('e, 'p) world \<Rightarrow> nat \<Rightarrow> ('e, 'p) heap \<times> nat \<Rightarrow> (string list, ('e, 'p) heap \<times> nat) outcome" where
  "get_entries n w a \<sigma> =
     bind (walk n w a True \<sigma>) (\<lambda>items (h, k).
       case zip_star3 (triples items) of
         Inl e \<Rightarrow> Some (Inl e, (h, k))
       | Inr (_, names, _) \<Rightarrow> Some (Inr (remdups names), (h, k)))"

section \<open>Runs of the base watcher, and concrete environments\<close>

text \<open>
  A sequence of calls of \<^verbatim>\<open>State.changed()\<close> on one state: before each call the
  clock is read \<open>g\<close> more times by other code.
\<close>

fun changed_calls :: "('e, 'p) world \<Rightarrow> State \<Rightarrow> nat \<Rightarrow> nat list \<Rightarrow> State \<times> nat" where
  "changed_calls w s k [] = (s, k)"
| "changed_calls w s k (g # gs) =
     (let (r, s', k') = State_changed w s (k + g) in changed_calls w s' k' gs)"

text \<open>
  An environment in which nothing exists: every path and URL fails. Its clock
  advances by one second from reading to reading and \<^verbatim>\<open>clamp\<close> has the floor 0.
  The concrete instances below change the fields they need.
\<close>

definition bare_world :: "(string, string) world" where
  "bare_world =
     \<lparr>clock = (\<lambda>k. real k + 1),
      clamp = (\<lambda>t. max 0 t),
      isdir = (\<lambda>p. False),
      listdir = (\<lambda>p. Inl (OSError p)),
      getmtime = (\<lambda>p. Inl (OSError p)),
      path_join = (\<lambda>d f. d @ ''/'' @ f),
      urljoin = (\<lambda>b r. b @ r),
      netloc = (\<lambda>u. u),
      requests_get = (\<lambda>u. Inl (OSError u)),
      unpackb = (\<lambda>c. Inl ValueError),
      CatalogConfig = (\<lambda>p. Inl (OSError p)),
      RemoteCatalogEntry = (\<lambda>u s. Inr u)\<rparr>"

text \<open>A clock that returns 100 three times and then 102.\<close>

definition stalled_world :: "(string, string) world" where
  "stalled_world = bare_world\<lparr>clock := (\<lambda>k. if k < 3 then 100 else 102)\<rparr>"

text \<open>The state of a watcher of \<^verbatim>\<open>cat.yml\<close> with TTL 10, and of one of \<^verbatim>\<open>http://host\<close> with TTL 1.\<close>

definition local_state :: "real \<Rightarrow> real \<Rightarrow> State" where
  "local_state m l = \<lparr>State.name = None, observable = Uri ''cat.yml'', ttl = 10,
                      modification_time = m, last_updated = l, variant = LocalState\<rparr>"

definition remote_state :: "real \<Rightarrow> real \<Rightarrow> State" where
  "remote_state m l = \<lparr>State.name = None, observable = Uri ''http://host'', ttl = 1,
       modification_time = m, last_updated = l,
       variant = RemoteState ''http://host/'' ''http://host/v1/info'' ''http://host/v1/source''\<rparr>"

text \<open>
  An environment with two folders, \<^verbatim>\<open>d\<close> holding \<^verbatim>\<open>a.yml\<close>, \<^verbatim>\<open>b.yaml\<close>
  and \<^verbatim>\<open>c.txt\<close>, and \<^verbatim>\<open>e\<close> holding \<^verbatim>\<open>a.yml\<close>, \<^verbatim>\<open>a.yaml\<close> and
  \<^verbatim>\<open>c.txt\<close>. A config file is named after its base name; \<^verbatim>\<open>b.yaml\<close> declares
  no source, the others one source \<^verbatim>\<open>x\<close>. Every HTTP request is answered with
  status 404.
\<close>

definition folder_world :: "(string, string) world" where
  "folder_world = bare_world
     \<lparr>isdir := (\<lambda>p. p = ''d'' \<or> p = ''e''),
      listdir := (\<lambda>p. if p = ''d'' then Inr [''a.yml'', ''b.yaml'', ''c.txt'']
                      else if p = ''e'' then Inr [''a.yml'', ''a.yaml'', ''c.txt'']
                      else Inl (OSError p)),
      getmtime := (\<lambda>p. Inr 50),
      requests_get := (\<lambda>u. Inr \<lparr>url = u, status_code = 404, content = ''Not Found''\<rparr>),
      CatalogConfig := (\<lambda>p.
         if p = ''d/a.yml'' \<or> p = ''e/a.yml'' \<or> p = ''e/a.yaml''
         then Inr \<lparr>cfg_name = Some ''a'', cfg_entries = [(''x'', p)], cfg_plugins = []\<rparr>
         else if p = ''d/b.yaml''
         then Inr \<lparr>cfg_name = Some ''b'', cfg_entries = [], cfg_plugins = []\<rparr>
         else Inl (OSError p))\<rparr>"

text \<open>
  The same environment behind a server that redirects every request to its login
  page, which does not exist: \<^verbatim>\<open>requests.get\<close> follows the redirect, and the
  response it returns carries the URL of the last hop.
\<close>

definition redirect_world :: "(string, string) world" where
  "redirect_world = folder_world
     \<lparr>requests_get := (\<lambda>u. Inr \<lparr>url = ''http://host/login'', status_code = 404,
                                 content = ''Not Found''\<rparr>)\<rparr>"

text \<open>A catalog over a config file as \<^verbatim>\<open>Catalog(path)\<close> leaves it, and one over \<^verbatim>\<open>http://host\<close>.\<close>

definition local_catalog :: "string \<Rightarrow> string option \<Rightarrow> (string, string) dict \<Rightarrow> (string, string) Catalog" where
  "local_catalog p nm es =
     \<lparr>state = \<lparr>State.name = None, observable = Uri p, ttl = 1, modification_time = 0,
                last_updated = 0, variant = LocalState\<rparr>,
      name = nm, children = [], entries = es, plugins = []\<rparr>"

definition remote_catalog :: "State \<Rightarrow> (string, string) Catalog" where
  "remote_catalog st = \<lparr>state = st, name = Some ''host'', children = [],
                        entries = [(''x'', ''http://host/v1/source'')], plugins = []\<rparr>"

section \<open>The classification rules as the specification words them\<close>









section \<open>Reachability in the heap\<close>

text \<open>The edge from a catalog to each value of its \<^verbatim>\<open>_children\<close>.\<close>

definition child_rel :: "('e, 'p) heap \<Rightarrow> (nat \<times> nat) set" where
  "child_rel h = {(p, c). c \<in> snd ` set (children_of h p)}"

text \<open>
  The catalogs that can be reached from a member of \<open>Q\<close> along edges of \<open>E\<close>
  without entering \<open>V\<close>: what the loop of \<^verbatim>\<open>walk\<close> still has to visit when
  \<open>V\<close> is visited and \<open>Q\<close> is queued.
\<close>

inductive_set reach_avoiding :: "(nat \<times> nat) set \<Rightarrow> nat set \<Rightarrow> nat set \<Rightarrow> nat set"
  for E :: "(nat \<times> nat) set" and V :: "nat set" and Q :: "nat set" where
  start: "x \<in> Q \<Longrightarrow> x \<notin> V \<Longrightarrow> x \<in> reach_avoiding E V Q"
| step: "y \<in> reach_avoiding E V Q \<Longrightarrow> (y, z) \<in> E \<Longrightarrow> z \<notin> V \<Longrightarrow> z \<in> reach_avoiding E V Q"

text \<open>The triples \<^verbatim>\<open>walk\<close> yields for one catalog.\<close>

definition leaves_of :: "('e, 'p) heap \<Rightarrow> nat \<Rightarrow> 'e item list" where
  "leaves_of h c = map (\<lambda>(source, e). Leaf c source e) (dict_items (entries_of h c))"

section \<open>Concrete heaps\<close>

text \<open>
  The heap \<^verbatim>\<open>Catalog('d/a.yml', 'd/b.yaml')\<close> builds in \<open>folder_world\<close>: the two
  members at 0 and 1, the collection at 2; and the same heap after a read at the
  collection has probed the second member.
\<close>

definition collection_heap :: "(string, string) heap" where
  "collection_heap =
     [local_catalog ''d/a.yml'' (Some ''a'') [(''x'', ''d/a.yml'')],
      local_catalog ''d/b.yaml'' (Some ''b'') [],
      \<lparr>state = \<lparr>State.name = None, observable = Uris [''d/a.yml'', ''d/b.yaml''], ttl = 1,
                 modification_time = 0, last_updated = 0, variant = CollectionState [0, 1]\<rparr>,
       name = None, children = [(Some ''a'', 0), (Some ''b'', 1)], entries = [], plugins = []\<rparr>]"

definition collection_heap_probed :: "(string, string) heap" where
  "collection_heap_probed =
     collection_heap[1 := (collection_heap ! 1)
        \<lparr>state := (state (collection_heap ! 1))\<lparr>modification_time := 50, last_updated := 2\<rparr>\<rparr>]"

text \<open>
  A heap in which the catalog at 0 is a child of both the catalog at 1 and the
  catalog at 2, which are the members of the collection at 3. The watchers of 0, 1
  and 2 were probed at time 100.
\<close>

definition watched :: "string \<Rightarrow> variant \<Rightarrow> State" where
  "watched p v = \<lparr>State.name = None, observable = Uri p, ttl = 1, modification_time = 50,
                  last_updated = 100, variant = v\<rparr>"

definition diamond_heap :: "(string, string) heap" where
  "diamond_heap =
     [\<lparr>state = watched ''d/a.yml'' LocalState, name = Some ''a'', children = [],
       entries = [(''x'', ''d/a.yml'')], plugins = []\<rparr>,
      \<lparr>state = watched ''d'' (DirectoryState [0]), name = Some ''p'', children = [(Some ''a'', 0)],
       entries = [], plugins = []\<rparr>,
      \<lparr>state = watched ''e'' (DirectoryState [0]), name = Some ''q'', children = [(Some ''a'', 0)],
       entries = [], plugins = []\<rparr>,
      \<lparr>state = \<lparr>State.name = None, observable = Uris [''d'', ''e''], ttl = 1, modification_time = 0,
                 last_updated = 0, variant = CollectionState [1, 2]\<rparr>,
       name = None, children = [(Some ''p'', 1), (Some ''q'', 2)], entries = [], plugins = []\<rparr>]"

section \<open>Invariants of the heap\<close>

fun is_CollectionState :: "variant \<Rightarrow> bool" where
  "is_CollectionState (CollectionState cs) = True"
| "is_CollectionState v = False"

text \<open>
  \<open>grows h h'\<close>: the heap \<open>h'\<close> is \<open>h\<close> followed by new catalogs, none of
  them a collection. This is all that constructing the catalog of one URI does.
\<close>

definition grows :: "('e, 'p) heap \<Rightarrow> ('e, 'p) heap \<Rightarrow> bool" where
  "grows h h' \<longleftrightarrow>
     prefix h h' \<and>
     (\<forall>i. length h \<le> i \<and> i < length h' \<longrightarrow> \<not> is_CollectionState (variant (state (h' ! i))))"

text \<open>
  In a well-formed heap the members of a collection have smaller addresses than the
  collection: \<^verbatim>\<open>CollectionState.__init__\<close> constructs the members before the
  collection's own catalog is complete. No catalog is then its own descendant.
\<close>

definition wf_heap :: "('e, 'p) heap \<Rightarrow> bool" where
  "wf_heap h \<longleftrightarrow>
     (\<forall>i < length h. \<forall>cs. variant (state (h ! i)) = CollectionState cs \<longrightarrow> (\<forall>c \<in> set cs. c < i))"

text \<open>\<open>unchanged_from b h h'\<close>: no object is lost and the objects at \<open>b\<close> and above are as they were.\<close>

definition unchanged_from :: "nat \<Rightarrow> ('e, 'p) heap \<Rightarrow> ('e, 'p) heap \<Rightarrow> bool" where
  "unchanged_from b h h' \<longleftrightarrow>
     length h \<le> length h' \<and> (\<forall>i. b \<le> i \<and> i < length h \<longrightarrow> h' ! i = h ! i)"

text \<open>The files \<^verbatim>\<open>DirectoryState.refresh\<close> selects.\<close>

abbreviation is_config_file :: "string \<Rightarrow> bool" where
  "is_config_file f \<equiv> endswith f ''.yml'' \<or> endswith f ''.yaml''"

text \<open>
  Two heaps holding a collection whose first member was loaded when \<^verbatim>\<open>d/a.yml\<close>
  still was an empty catalog named \<^verbatim>\<open>old\<close>; in the second heap the other member
  watches a file that no longer exists. And the state of a directory watcher.
\<close>

definition stale_heap :: "(string, string) heap" where
  "stale_heap =
     [local_catalog ''d/a.yml'' (Some ''old'') [],
      local_catalog ''d/b.yaml'' (Some ''b'') [],
      \<lparr>state = \<lparr>State.name = None, observable = Uris [''d/a.yml'', ''d/b.yaml''], ttl = 1,
                 modification_time = 0, last_updated = 0, variant = CollectionState [0, 1]\<rparr>,
       name = None, children = [(Some ''old'', 0), (Some ''b'', 1)], entries = [], plugins = []\<rparr>]"

definition broken_heap :: "(string, string) heap" where
  "broken_heap =
     [local_catalog ''d/a.yml'' (Some ''old'') [],
      local_catalog ''gone.yml'' (Some ''gone'') [(''y'', ''gone.yml'')],
      \<lparr>state = \<lparr>State.name = None, observable = Uris [''d/a.yml'', ''gone.yml''], ttl = 1,
                 modification_time = 0, last_updated = 0, variant = CollectionState [0, 1]\<rparr>,
       name = None, children = [(Some ''old'', 0), (Some ''gone'', 1)], entries = [], plugins = []\<rparr>]"

definition directory_state :: "string \<Rightarrow> nat list \<Rightarrow> State" where
  "directory_state p cs = \<lparr>State.name = None, observable = Uri p, ttl = 1, modification_time = 0,
                           last_updated = 0, variant = DirectoryState cs\<rparr>"

section \<open>The shared staleness primitive\<close>

lemma update_modification_time_accepted:
  "now - last_updated s > ttl s \<Longrightarrow>
   update_modification_time s v now =
     (v > modification_time s, s\<lparr>modification_time := v, last_updated := now\<rparr>)"
  by (simp add: update_modification_time_def)

lemma update_modification_time_suppressed:
  "\<not> now - last_updated s > ttl s \<Longrightarrow> update_modification_time s v now = (False, s)"
  by (simp add: update_modification_time_def)

text \<open>
  The \<^verbatim>\<open>changed\<close> of a catalog over a config file is the primitive applied to the
  file's modification time; that of a catalog over a URL is \<^verbatim>\<open>State.changed()\<close>.
\<close>

lemma changed_LocalState:
  assumes "a < length h" and "variant (state (h ! a)) = LocalState"
    and "observable (state (h ! a)) = Uri p" and "getmtime w p = Inr v"
  shows "changed (Suc n) w a (h, k) =
           Some (Inr (fst (update_modification_time (state (h ! a)) v (clock w k))),
                 (h[a := (h ! a)\<lparr>state := snd (update_modification_time (state (h ! a)) v (clock w k))\<rparr>],
                  Suc k))"
  using assms by (simp add: Let_def case_prod_unfold)

lemma changed_RemoteState:
  assumes "a < length h" and "variant (state (h ! a)) = RemoteState b i s"
  shows "changed (Suc n) w a (h, k) =
           Some (Inr (fst (State_changed w (state (h ! a)) k)),
                 (h[a := (h ! a)\<lparr>state := fst (snd (State_changed w (state (h ! a)) k))\<rparr>],
                  snd (snd (State_changed w (state (h ! a)) k))))"
  using assms by (simp add: Let_def case_prod_unfold)

text \<open>
  C2 (as amended). Given the observed value \<open>v\<close> at time \<open>now\<close>: if
  \<open>now - last_updated > ttl\<close> the probe is accepted, the result is
  \<open>v > modification_time\<close> and the two stored fields become \<open>v\<close> and \<open>now\<close>;
  otherwise the result is false and the state is untouched. Consequently, after an
  accepted probe every probe that comes within \<open>ttl\<close> seconds of it is suppressed:
  it returns false and leaves the state as it is.
\<close>

theorem update_modification_time_throttle:
  assumes "update_modification_time s v now = (r, s')"
  shows "(ttl s < now - last_updated s \<longrightarrow>
            r = (modification_time s < v) \<and>
            s' = s\<lparr>modification_time := v, last_updated := now\<rparr> \<and>
            (\<forall>v2 now2. now2 - now \<le> ttl s \<longrightarrow> update_modification_time s' v2 now2 = (False, s')))
       \<and> (\<not> ttl s < now - last_updated s \<longrightarrow> r = False \<and> s' = s)"
  using assms by (auto simp: update_modification_time_def)

theorem update_modification_time_throttle_witness:
  "update_modification_time (local_state 0 0) 50 100 = (True, local_state 50 100) \<and>
   update_modification_time (local_state 50 100) 60 105 = (False, local_state 50 100)"
proof -
  have h: "update_modification_time (local_state 0 0) 50 100 = (True, local_state 50 100)"
    by (simp add: update_modification_time_def local_state_def)
  have "105 - 100 \<le> ttl (local_state 0 0)" by (simp add: local_state_def)
  with update_modification_time_throttle[OF h]
  have "update_modification_time (local_state 50 100) 60 105 = (False, local_state 50 100)"
    by (auto simp: local_state_def)
  with h show ?thesis by simp
qed

text \<open>
  C2 as stated fails when the first of the two calls is itself suppressed. A watcher
  with TTL 10 is probed at time 100 (accepted, the file's time being 50); the file
  changes to time 60; the probe at time 105 is suppressed; the probe at time 111,
  six seconds after the previous call, is accepted and returns true.
\<close>

theorem second_probe_within_ttl_returns_true:
  "State_init bare_world None (Uri ''cat.yml'') 10 LocalState = local_state 0 0 \<and>
   update_modification_time (local_state 0 0) 50 100 = (True, local_state 50 100) \<and>
   update_modification_time (local_state 50 100) 60 105 = (False, local_state 50 100) \<and>
   0 < ttl (local_state 50 100) \<and> (111::real) - 105 \<le> ttl (local_state 50 100) \<and>
   update_modification_time (local_state 50 100) 60 111 = (True, local_state 60 111)"
  by (simp add: update_modification_time_def local_state_def State_init_def bare_world_def)

section \<open>The base watcher probes its own clock\<close>

lemma changed_calls_modification_time:
  assumes "strict_mono (clock w)"
  shows "modification_time s < clock w k \<Longrightarrow> changed_calls w s k gs = (s', k') \<Longrightarrow>
         modification_time s' < clock w k'"
proof (induction gs arbitrary: s k)
  case Nil
  then show ?case by simp
next
  case (Cons g gs)
  obtain r s1 k1 where sc: "State_changed w s (k + g) = (r, s1, k1)"
    by (cases "State_changed w s (k + g)") auto
  have lt: "clock w k \<le> clock w (k + g)" "clock w (k + g) < clock w (k + g + 2)"
    using assms by (simp_all add: strict_mono_less_eq strict_mono_less)
  from sc have "modification_time s1 < clock w k1"
    using Cons.prems(1) lt
    by (auto simp: State_changed_def update_modification_time_def Let_def split: if_splits prod.splits)
  moreover from Cons.prems(2) sc have "changed_calls w s1 k1 gs = (s', k')" by simp
  ultimately show ?case by (rule Cons.IH)
qed

text \<open>
  C10 (as amended). For the base behaviour, which \<^verbatim>\<open>RemoteState\<close> inherits:
  when every reading of the clock is positive and later than the one before, every
  accepted probe of a state that was created by \<^verbatim>\<open>State.__init__\<close> and has only
  been probed by \<^verbatim>\<open>changed()\<close> since returns true, whatever the server did.
\<close>

theorem State_changed_accepted_is_true:
  assumes "strict_mono (clock w)" and "0 < clock w 0"
    and "changed_calls w (State_init w nm obs t v) k gs = (s, k')"
    and "k' \<le> k''"
    and "ttl s < clock w (Suc k'') - last_updated s"
  shows "fst (State_changed w s k'')"
proof -
  have "clock w 0 \<le> clock w k" using assms(1) by (simp add: strict_mono_less_eq)
  then have "modification_time (State_init w nm obs t v) < clock w k"
    using assms(2) by (simp add: State_init_def)
  then have "modification_time s < clock w k'"
    using assms(3) by (rule changed_calls_modification_time[OF assms(1)])
  moreover have "clock w k' \<le> clock w k''" using assms(1,4) by (simp add: strict_mono_less_eq)
  ultimately show ?thesis
    using assms(5) by (simp add: State_changed_def update_modification_time_def Let_def)
qed

theorem State_changed_accepted_is_true_witness:
  "strict_mono (clock bare_world) \<and> 0 < clock bare_world 0 \<and>
   changed_calls bare_world (State_init bare_world None (Uri ''http://host'') 1
       (RemoteState ''http://host/'' ''http://host/v1/info'' ''http://host/v1/source'')) 0 [0]
     = (remote_state 1 2, 2) \<and>
   ttl (remote_state 1 2) < clock bare_world 3 - last_updated (remote_state 1 2) \<and>
   fst (State_changed bare_world (remote_state 1 2) 2)"
proof -
  have a: "strict_mono (clock bare_world)"
    by (simp add: bare_world_def strict_mono_def)
  have b: "0 < clock bare_world 0" by (simp add: bare_world_def)
  have c: "changed_calls bare_world (State_init bare_world None (Uri ''http://host'') 1
       (RemoteState ''http://host/'' ''http://host/v1/info'' ''http://host/v1/source'')) 0 [0]
     = (remote_state 1 2, 2)"
    by (simp add: State_changed_def update_modification_time_def State_init_def bare_world_def
        remote_state_def)
  have d: "ttl (remote_state 1 2) < clock bare_world (Suc 2) - last_updated (remote_state 1 2)"
    by (simp add: bare_world_def remote_state_def)
  have "fst (State_changed bare_world (remote_state 1 2) 2)"
    using State_changed_accepted_is_true[OF a b c _ d] by simp
  with a b c d show ?thesis by (simp add: numeral_3_eq_3)
qed

text \<open>
  C10 as stated fails when the clock does not advance between the readings. With the
  clock readings 100, 100, 100, 102 and TTL 1, the first call stores 100 and 100; the
  second call passes the reading 100 as the observed value, reads 102 inside
  \<^verbatim>\<open>update_modification_time\<close>, is accepted (\<open>102 - 100 > 1\<close>) and returns
  \<open>100 > 100\<close>, which is false.
\<close>

theorem State_changed_accepted_is_false_on_stalled_clock:
  "mono (clock stalled_world) \<and>
   changed_calls stalled_world (State_init stalled_world None (Uri ''http://host'') 1
       (RemoteState ''http://host/'' ''http://host/v1/info'' ''http://host/v1/source'')) 0 [0]
     = (remote_state 100 100, 2) \<and>
   ttl (remote_state 100 100) < clock stalled_world 3 - last_updated (remote_state 100 100) \<and>
   State_changed stalled_world (remote_state 100 100) 2 = (False, remote_state 100 102, 4)"
proof -
  have "mono (clock stalled_world)"
    by (auto simp: stalled_world_def mono_def)
  then show ?thesis
    by (simp add: State_changed_def update_modification_time_def State_init_def bare_world_def
        stalled_world_def remote_state_def)
qed

section \<open>Classification of observables\<close>



section \<open>A failed request of the info endpoint\<close>

lemma state_remote_catalog: "state (remote_catalog st) = st"
  by (simp add: remote_catalog_def)

text \<open>
  C7 (as amended). When the GET of the info URL of a Remote watcher is answered with
  a status other than 200, \<^verbatim>\<open>refresh()\<close> raises an exception whose message is the
  URL the response carries (\<^verbatim>\<open>response.url\<close>), the text \<^verbatim>\<open>: status code\<close> and the
  status in decimal, so the message contains that URL and the status; it contains the
  request URL when the response carries the request URL, that is when the request was
  not redirected. The \<^verbatim>\<open>reload()\<close> of the owning catalog raises the same exception
  and the heap, hence the catalog's snapshot, is what it was.
\<close>

theorem remote_refresh_status_not_200:
  assumes "a < length h"
    and "variant (state (h ! a)) = RemoteState base_url info_url source_url"
    and "observable (state (h ! a)) = Uri obs"
    and "requests_get w info_url = Inr r"
    and "status_code r \<noteq> 200"
  shows "refresh n w (state (h ! a)) h =
           Some (Inl (Exception (url r @ '': status code '' @ fmt_d (status_code r))), h) \<and>
         reload (Suc n) w a h =
           Some (Inl (Exception (url r @ '': status code '' @ fmt_d (status_code r))), h) \<and>
         sublist (url r) (url r @ '': status code '' @ fmt_d (status_code r)) \<and>
         sublist (fmt_d (status_code r)) (url r @ '': status code '' @ fmt_d (status_code r)) \<and>
         (url r = info_url \<longrightarrow>
            sublist info_url (url r @ '': status code '' @ fmt_d (status_code r)))"
proof -
  have "sublist (fmt_d (status_code r)) (url r @ '': status code '' @ fmt_d (status_code r))"
    using sublist_appendI[of "fmt_d (status_code r)" "url r @ '': status code ''" "[]"] by simp
  then show ?thesis
    using assms by (simp add: refresh.simps RemoteState_refresh_def bind_def)
qed

theorem remote_refresh_status_not_200_witness:
  "refresh 0 folder_world (remote_state 0 0) [remote_catalog (remote_state 0 0)] =
     Some (Inl (Exception ''http://host/v1/info: status code 404''), [remote_catalog (remote_state 0 0)]) \<and>
   reload (Suc 0) folder_world 0 [remote_catalog (remote_state 0 0)] =
     Some (Inl (Exception ''http://host/v1/info: status code 404''), [remote_catalog (remote_state 0 0)]) \<and>
   sublist ''http://host/v1/info'' ''http://host/v1/info: status code 404'' \<and>
   sublist ''404'' ''http://host/v1/info: status code 404''"
proof -
  let ?h = "[remote_catalog (remote_state 0 0)]"
  let ?r = "\<lparr>url = ''http://host/v1/info'', status_code = 404, content = ''Not Found''\<rparr>"
  have 1: "0 < length ?h" by simp
  have 2: "variant (state (?h ! 0)) =
             RemoteState ''http://host/'' ''http://host/v1/info'' ''http://host/v1/source''"
    by (simp add: remote_catalog_def remote_state_def)
  have 3: "observable (state (?h ! 0)) = Uri ''http://host''"
    by (simp add: remote_catalog_def remote_state_def)
  have 4: "requests_get folder_world ''http://host/v1/info'' = Inr ?r"
    by (simp add: folder_world_def)
  have 5: "status_code ?r \<noteq> 200" by simp
  have 6: "fmt_d 404 = ''404''"
    by (simp add: fmt_d_def fmt_nat.simps)
  have 7: "state (?h ! 0) = remote_state 0 0" by (simp add: remote_catalog_def)
  show ?thesis
    using remote_refresh_status_not_200[OF 1 2 3 4 5, of 0] unfolding 7 by (simp add: 6)
qed

text \<open>
  C7 as stated fails when the request is redirected: in \<open>redirect_world\<close> the GET of
  \<^verbatim>\<open>http://host/v1/info\<close> is answered by \<^verbatim>\<open>http://host/login\<close> with status 404,
  and the message of the exception names the login page; the request URL occurs
  nowhere in it. The heap is unchanged also here.
\<close>

theorem remote_refresh_message_names_redirect_target:
  "requests_get redirect_world ''http://host/v1/info'' =
     Inr \<lparr>url = ''http://host/login'', status_code = 404, content = ''Not Found''\<rparr> \<and>
   refresh 0 redirect_world (remote_state 0 0) [remote_catalog (remote_state 0 0)] =
     Some (Inl (Exception ''http://host/login: status code 404''), [remote_catalog (remote_state 0 0)]) \<and>
   reload (Suc 0) redirect_world 0 [remote_catalog (remote_state 0 0)] =
     Some (Inl (Exception ''http://host/login: status code 404''), [remote_catalog (remote_state 0 0)]) \<and>
   \<not> sublist ''http://host/v1/info'' ''http://host/login: status code 404''"
proof -
  have 6: "fmt_d 404 = ''404''"
    by (simp add: fmt_d_def fmt_nat.simps)
  have s: "\<not> sublist ''http://host/v1/info'' ''http://host/login: status code 404''"
    by (simp add: sublist_Cons_right)
  have r: "refresh 0 redirect_world (remote_state 0 0) [remote_catalog (remote_state 0 0)] =
     Some (Inl (Exception ''http://host/login: status code 404''), [remote_catalog (remote_state 0 0)])"
    by (simp add: refresh.simps RemoteState_refresh_def redirect_world_def folder_world_def
          bare_world_def remote_state_def 6)
  have l: "reload (Suc 0) redirect_world 0 [remote_catalog (remote_state 0 0)] =
     Some (Inl (Exception ''http://host/login: status code 404''), [remote_catalog (remote_state 0 0)])"
    using r by (simp add: bind_def state_remote_catalog)
  show ?thesis using r l s by (simp add: redirect_world_def)
qed

section \<open>Traversal visits every reachable catalog once\<close>

lemma reach_avoiding_mono:
  "x \<in> reach_avoiding E V Q \<Longrightarrow> V' \<subseteq> V \<Longrightarrow> Q \<subseteq> Q' \<Longrightarrow> x \<in> reach_avoiding E V' Q'"
  by (induction rule: reach_avoiding.induct) (auto intro: reach_avoiding.intros)

lemma reach_avoiding_visited_head:
  assumes "c \<in> V"
  shows "reach_avoiding E V (insert c Q) = reach_avoiding E V Q"
proof
  show "reach_avoiding E V (insert c Q) \<subseteq> reach_avoiding E V Q"
  proof
    fix x assume "x \<in> reach_avoiding E V (insert c Q)"
    then show "x \<in> reach_avoiding E V Q"
      using assms by (induction rule: reach_avoiding.induct) (auto intro: reach_avoiding.intros)
  qed
  show "reach_avoiding E V Q \<subseteq> reach_avoiding E V (insert c Q)"
    by (auto intro: reach_avoiding_mono)
qed

lemma reach_avoiding_unvisited_head:
  assumes "c \<notin> V"
  shows "reach_avoiding E V (insert c Q) =
         insert c (reach_avoiding E (insert c V) (Q \<union> {z. (c, z) \<in> E \<and> z \<notin> insert c V}))"
    (is "?L = insert c ?R")
proof
  show "?L \<subseteq> insert c ?R"
  proof
    fix x assume "x \<in> ?L"
    then show "x \<in> insert c ?R"
    proof (induction rule: reach_avoiding.induct)
      case (start x)
      then show ?case by (cases "x = c") (auto intro: reach_avoiding.start)
    next
      case (step y z)
      show ?case
      proof (cases "z = c")
        case True
        then show ?thesis by simp
      next
        case zc: False
        show ?thesis
        proof (cases "y = c")
          case True
          with step zc have "z \<in> Q \<union> {z. (c, z) \<in> E \<and> z \<notin> insert c V}" by simp
          moreover have "z \<notin> insert c V" using step zc by simp
          ultimately have "z \<in> ?R" by (rule reach_avoiding.start)
          then show ?thesis by simp
        next
          case False
          with step have "y \<in> ?R" by simp
          moreover note step.hyps(2)
          moreover have "z \<notin> insert c V" using step zc by simp
          ultimately have "z \<in> ?R" by (rule reach_avoiding.step)
          then show ?thesis by simp
        qed
      qed
    qed
  qed
  show "insert c ?R \<subseteq> ?L"
  proof
    fix x assume x: "x \<in> insert c ?R"
    have c: "c \<in> ?L" using assms by (auto intro: reach_avoiding.start)
    show "x \<in> ?L"
    proof (cases "x = c")
      case True
      then show ?thesis using c by simp
    next
      case False
      with x have "x \<in> ?R" by simp
      then show ?thesis
      proof (induction rule: reach_avoiding.induct)
        case (start x)
        then show ?case
        proof (cases "x \<in> Q")
          case True
          then show ?thesis using start by (auto intro: reach_avoiding.start)
        next
          case False
          with start have "(c, x) \<in> E" "x \<notin> V" by auto
          with c show ?thesis by (rule reach_avoiding.step)
        qed
      next
        case (step y z)
        then show ?case by (auto intro: reach_avoiding.step)
      qed
    qed
  qed
qed

lemma reach_avoiding_rtrancl: "reach_avoiding E {} {a} = E\<^sup>* `` {a}"
proof
  show "reach_avoiding E {} {a} \<subseteq> E\<^sup>* `` {a}"
  proof
    fix x assume "x \<in> reach_avoiding E {} {a}"
    then show "x \<in> E\<^sup>* `` {a}"
      by (induction rule: reach_avoiding.induct) (auto intro: rtrancl_into_rtrancl)
  qed
  show "E\<^sup>* `` {a} \<subseteq> reach_avoiding E {} {a}"
  proof
    fix x assume "x \<in> E\<^sup>* `` {a}"
    then have "(a, x) \<in> E\<^sup>*" by simp
    then show "x \<in> reach_avoiding E {} {a}"
      by (induction rule: rtrancl_induct) (auto intro: reach_avoiding.intros)
  qed
qed

lemma walk_loop_nodes:
  "walk_loop h False V q = map Node (map item_catalog (walk_loop h False V q))"
  by (induction h "False" V q rule: walk_loop.induct) (simp_all add: walk_loop.simps)

lemma walk_loop_leaves:
  "walk_loop h True V q = concat (map (leaves_of h) (map item_catalog (walk_loop h False V q)))"
  by (induction h "True" V q rule: walk_loop.induct) (simp_all add: walk_loop.simps leaves_of_def)

lemma walk_loop_distinct:
  "distinct (map item_catalog (walk_loop h False V q)) \<and>
   set (map item_catalog (walk_loop h False V q)) \<inter> V = {}"
  by (induction h "False" V q rule: walk_loop.induct) (auto simp: walk_loop.simps)

lemma walk_loop_reach:
  "set (map item_catalog (walk_loop h False V q)) = reach_avoiding (child_rel h) V (set q)"
proof (induction h "False" V q rule: walk_loop.induct)
  case (1 h visited)
  have "reach_avoiding (child_rel h) visited {} = {}"
  proof -
    have "x \<notin> reach_avoiding (child_rel h) visited {}" for x
    proof
      assume "x \<in> reach_avoiding (child_rel h) visited {}"
      then show False by (induction rule: reach_avoiding.induct) auto
    qed
    then show ?thesis by blast
  qed
  then show ?case by simp
next
  case (2 h visited catalog queue)
  show ?case
  proof (cases "catalog \<in> visited")
    case True
    then show ?thesis
      using 2(1) by (simp add: walk_loop.simps reach_avoiding_visited_head)
  next
    case False
    have q: "set (queue @ filter (\<lambda>c. c \<notin> insert catalog visited)
                  (remdups (map snd (children_of h catalog)))) =
          set queue \<union> {z. (catalog, z) \<in> child_rel h \<and> z \<notin> insert catalog visited}"
      by (auto simp: child_rel_def)
    show ?thesis
      using False 2(2)[OF False] unfolding q
      by (simp add: walk_loop.simps reach_avoiding_unvisited_head[OF False])
  qed
qed

lemma walk_loop_order:
  "distinct (map item_catalog (walk_loop h False {} [a])) \<and>
   set (map item_catalog (walk_loop h False {} [a])) = (child_rel h)\<^sup>* `` {a}"
  using walk_loop_distinct[of h "{}" "[a]"]
  by (simp only: walk_loop_reach reach_avoiding_rtrancl list.set simp_thms)

lemma walk_returns_walk_loop:
  assumes "walk n w a leaves \<sigma> = Some (Inr items, (h', k'))"
  shows "items = walk_loop h' leaves {} [a]"
  using assms by (auto simp: walk_def bind_def split: option.splits sum.splits prod.splits)

text \<open>
  C8. \<^verbatim>\<open>walk\<close> visits every catalog that is reachable from the start through
  \<^verbatim>\<open>_children\<close> exactly once, however many parents lead to it: there is an order
  of visits without repetition that covers exactly the reachable catalogs, and the
  result is the catalogs in that order (\<^verbatim>\<open>leaves=False\<close>), or the triples of
  each of them in that order (\<^verbatim>\<open>leaves=True\<close>).
\<close>

theorem walk_visits_each_reachable_catalog_once:
  assumes "walk n w a leaves \<sigma> = Some (Inr items, (h', k'))"
  shows "\<exists>order. distinct order \<and> set order = (child_rel h')\<^sup>* `` {a} \<and>
           items = (if leaves then concat (map (leaves_of h') order) else map Node order)"
proof -
  let ?order = "map item_catalog (walk_loop h' False {} [a])"
  have "items = walk_loop h' leaves {} [a]" using assms by (rule walk_returns_walk_loop)
  then have "items = (if leaves then concat (map (leaves_of h') ?order) else map Node ?order)"
    using walk_loop_nodes[of h' "{}" "[a]"] walk_loop_leaves[of h' "{}" "[a]"] by simp
  with walk_loop_order[of h' a] show ?thesis by blast
qed

lemmas traversal_eval = walk_def reload_on_change_def bind_def update_modification_time_def
        walk_loop.simps entries_of_def children_of_def dict_items_def get_catalogs_def get_entries_def zip_star3_def
        name_of_def truthy_def State_changed_def
        refresh.simps LocalState_refresh_def children_by_name_def dict_of_def

theorem walk_visits_each_reachable_catalog_once_witness:
  "walk (Suc (Suc (Suc 0))) folder_world 3 False (diamond_heap, 0) =
     Some (Inr [Node 3, Node 1, Node 2, Node 0], (diamond_heap, 4)) \<and>
   (child_rel diamond_heap)\<^sup>* `` {3} = {0, 1, 2, 3} \<and>
   (1, 0) \<in> child_rel diamond_heap \<and> (2, 0) \<in> child_rel diamond_heap"
proof -
  have w: "walk (Suc (Suc (Suc 0))) folder_world 3 False (diamond_heap, 0) =
     Some (Inr [Node 3, Node 1, Node 2, Node 0], (diamond_heap, 4))"
    by (simp add: traversal_eval diamond_heap_def watched_def folder_world_def bare_world_def)
  from walk_visits_each_reachable_catalog_once[OF w] have "{3, 1, 2, 0} = (child_rel diamond_heap)\<^sup>* `` {3}"
    by (auto simp: Cons_eq_map_conv)
  then have "(child_rel diamond_heap)\<^sup>* `` {3} = {0, 1, 2, 3}" by auto
  moreover have "(1, 0) \<in> child_rel diamond_heap" "(2, 0) \<in> child_rel diamond_heap"
    by (simp_all add: child_rel_def children_of_def diamond_heap_def)
  ultimately show ?thesis using w by simp
qed

section \<open>The listing of catalog names\<close>

lemma set_dict_items: "set (dict_items d) = {(k, v). map_of d k = Some v}"
proof (intro set_eqI iffI)
  fix x assume "x \<in> set (dict_items d)"
  then show "x \<in> {(k, v). map_of d k = Some v}"
    by (auto simp: dict_items_def split: option.splits)
next
  fix x assume x: "x \<in> {(k, v). map_of d k = Some v}"
  obtain k v where kv: "x = (k, v)" by (cases x)
  with x have m: "map_of d k = Some v" by simp
  then have "(k, v) \<in> set d" by (rule map_of_SomeD)
  then have "k \<in> set (map fst d)" by force
  with m have "\<exists>k' \<in> set (map fst d). (k, v) \<in> set (case map_of d k' of None \<Rightarrow> [] | Some v' \<Rightarrow> [(k', v')])"
    by (intro bexI[of _ k]) simp_all
  then show "x \<in> set (dict_items d)" unfolding kv dict_items_def by simp
qed

lemma dict_items_eq_Nil: "dict_items d = [] \<longleftrightarrow> d = []"
proof (cases d)
  case Nil
  then show ?thesis by (simp add: dict_items_def)
next
  case (Cons kv d')
  obtain k v where kv: "kv = (k, v)" by (cases kv)
  have "map_of d k = Some v" using Cons kv by simp
  then have "(k, v) \<in> set (dict_items d)" by (simp add: set_dict_items)
  then have "dict_items d \<noteq> []" by auto
  then show ?thesis using Cons by simp
qed

lemma triples_leaves_of:
  "map fst (triples (concat (map (leaves_of h) cs))) = map item_catalog (concat (map (leaves_of h) cs))"
proof -
  have "map fst (triples xs) = map item_catalog xs" if "list_all is_Leaf xs" for xs :: "'a item list"
    using that by (induction xs rule: triples.induct) simp_all
  moreover have "list_all is_Leaf (concat (map (leaves_of h) cs))"
    by (induction cs) (auto simp: leaves_of_def list_all_iff)
  ultimately show ?thesis by blast
qed

lemma item_catalog_leaves_of:
  "set (map item_catalog (concat (map (leaves_of h) cs))) = {c \<in> set cs. entries_of h c \<noteq> []}"
proof -
  have "set (map item_catalog (leaves_of h c)) = (if entries_of h c = [] then {} else {c})" for c
  proof -
    have "map item_catalog (leaves_of h c) = map (\<lambda>x. c) (dict_items (entries_of h c))"
      by (simp add: leaves_of_def case_prod_unfold comp_def)
    then show ?thesis using dict_items_eq_Nil[of "entries_of h c"]
      by (simp add: image_constant_conv)
  qed
  then show ?thesis by (induction cs) auto
qed

text \<open>
  C4 (as amended). \<^verbatim>\<open>get_catalogs\<close> returns, without repetition, exactly the
  non-empty names of the reachable catalogs that own at least one entry: it takes the
  catalogs from the triples of \<^verbatim>\<open>walk()\<close>, which is \<^verbatim>\<open>leaves=True\<close>.
\<close>

theorem get_catalogs_lists_owners_of_entries:
  assumes "get_catalogs n w a \<sigma> = Some (Inr names, (h', k'))"
  shows "distinct names \<and>
         set names = {nm. truthy nm \<and>
                          (\<exists>c \<in> (child_rel h')\<^sup>* `` {a}. entries_of h' c \<noteq> [] \<and> name_of h' c = nm)}"
proof -
  from assms obtain items where w: "walk n w a True \<sigma> = Some (Inr items, (h', k'))"
    and z: "(case zip_star3 (triples items) of
               Inl e \<Rightarrow> Some (Inl e, (h', k'))
             | Inr (catalogs, _, _) \<Rightarrow>
                 Some (Inr (remdups (filter truthy (map (name_of h') catalogs))), (h', k')))
            = Some (Inr names, (h', k'))"
    by (auto simp: get_catalogs_def bind_def split: option.splits sum.splits prod.splits)
  let ?order = "map item_catalog (walk_loop h' False {} [a])"
  have items: "items = concat (map (leaves_of h') ?order)"
    using walk_returns_walk_loop[OF w] walk_loop_leaves[of h' "{}" "[a]"] by simp
  have "map fst (triples items) = map item_catalog items"
    unfolding items by (rule triples_leaves_of)
  with z have names: "names = remdups (filter truthy (map (name_of h') (map item_catalog items)))"
    by (auto simp: zip_star3_def split: if_splits)
  have "set (map item_catalog items) = {c \<in> (child_rel h')\<^sup>* `` {a}. entries_of h' c \<noteq> []}"
    unfolding items item_catalog_leaves_of using walk_loop_order[of h' a] by simp
  then have "set (map (name_of h') (map item_catalog items)) =
      name_of h' ` {c \<in> (child_rel h')\<^sup>* `` {a}. entries_of h' c \<noteq> []}"
    by (simp only: set_map)
  then have "set names = {nm. truthy nm \<and>
      (\<exists>c \<in> (child_rel h')\<^sup>* `` {a}. entries_of h' c \<noteq> [] \<and> name_of h' c = nm)}"
    unfolding names by (simp only: set_remdups set_filter) blast
  moreover have "distinct names" unfolding names by simp
  ultimately show ?thesis by simp
qed

theorem get_catalogs_lists_owners_of_entries_witness:
  "get_catalogs (Suc (Suc 0)) folder_world 2 (collection_heap, 0) =
     Some (Inr [Some ''a''], (collection_heap_probed, 2)) \<and>
   {nm. truthy nm \<and> (\<exists>c \<in> (child_rel collection_heap_probed)\<^sup>* `` {2}.
          entries_of collection_heap_probed c \<noteq> [] \<and> name_of collection_heap_probed c = nm)}
     = {Some ''a''}"
proof -
  have g: "get_catalogs (Suc (Suc 0)) folder_world 2 (collection_heap, 0) =
     Some (Inr [Some ''a''], (collection_heap_probed, 2))"
    by (simp add: traversal_eval collection_heap_probed_def collection_heap_def local_catalog_def
        folder_world_def bare_world_def)
  from get_catalogs_lists_owners_of_entries[OF g] g show ?thesis by simp
qed

text \<open>
  C4 as stated fails on the collection over \<^verbatim>\<open>d/a.yml\<close> and \<^verbatim>\<open>d/b.yaml\<close>:
  \<^verbatim>\<open>walk(leaves=False)\<close> yields the collection and both members, the second member
  is named \<^verbatim>\<open>b\<close> and owns no entry, and \<^verbatim>\<open>get_catalogs\<close> returns only
  \<^verbatim>\<open>a\<close>.
\<close>

theorem get_catalogs_omits_catalog_without_entries:
  "get_catalogs (Suc (Suc 0)) folder_world 2 (collection_heap, 0) =
     Some (Inr [Some ''a''], (collection_heap_probed, 2)) \<and>
   walk (Suc (Suc 0)) folder_world 2 False (collection_heap, 0) =
     Some (Inr [Node 2, Node 0, Node 1], (collection_heap_probed, 2)) \<and>
   name_of collection_heap_probed 1 = Some ''b'' \<and> truthy (Some ''b'') \<and>
   entries_of collection_heap_probed 1 = [] \<and>
   Some ''b'' \<notin> set [Some ''a'']"
  by (simp add: traversal_eval collection_heap_probed_def collection_heap_def local_catalog_def
        folder_world_def bare_world_def)

section \<open>Listings over a traversal that yields nothing\<close>

text \<open>
  The traversal yields no triple exactly when no reachable catalog owns an entry, as
  over a folder or a config file without any entry.
\<close>

lemma walk_yields_nothing_iff:
  assumes "walk n w a True \<sigma> = Some (Inr items, (h', k'))"
  shows "items = [] \<longleftrightarrow> (\<forall>c \<in> (child_rel h')\<^sup>* `` {a}. entries_of h' c = [])"
proof -
  let ?order = "map item_catalog (walk_loop h' False {} [a])"
  have "items = concat (map (leaves_of h') ?order)"
    using walk_returns_walk_loop[OF assms] walk_loop_leaves[of h' "{}" "[a]"] by simp
  then have "items = [] \<longleftrightarrow> (\<forall>c \<in> set ?order. leaves_of h' c = [])" by simp
  also have "\<dots> \<longleftrightarrow> (\<forall>c \<in> set ?order. entries_of h' c = [])"
    by (simp add: leaves_of_def dict_items_eq_Nil)
  finally have "items = [] \<longleftrightarrow> (\<forall>c \<in> set ?order. entries_of h' c = [])" .
  moreover have "set ?order = (child_rel h')\<^sup>* `` {a}" using walk_loop_order[of h' a] by blast
  ultimately show ?thesis by (simp only:)
qed

text \<open>
  C9. When \<^verbatim>\<open>walk(leaves=True)\<close> yields no triple, \<^verbatim>\<open>get_entries()\<close> and
  \<^verbatim>\<open>get_catalogs()\<close> raise the \<^verbatim>\<open>ValueError\<close> of the failed unpacking; they do
  not return an empty list.
\<close>

theorem listings_raise_on_empty_walk:
  assumes "walk n w a True \<sigma> = Some (Inr [], \<sigma>')"
  shows "get_entries n w a \<sigma> = Some (Inl ValueError, \<sigma>') \<and>
         get_catalogs n w a \<sigma> = Some (Inl ValueError, \<sigma>')"
  using assms by (cases \<sigma>') (simp add: get_entries_def get_catalogs_def bind_def zip_star3_def)

theorem listings_raise_on_empty_walk_witness:
  "walk (Suc 0) folder_world 0 True ([local_catalog ''d/b.yaml'' (Some ''b'') []], 0) =
     Some (Inr [], ([local_catalog ''d/b.yaml'' (Some ''b'') []], 1)) \<and>
   get_entries (Suc 0) folder_world 0 ([local_catalog ''d/b.yaml'' (Some ''b'') []], 0) =
     Some (Inl ValueError, ([local_catalog ''d/b.yaml'' (Some ''b'') []], 1)) \<and>
   get_catalogs (Suc 0) folder_world 0 ([local_catalog ''d/b.yaml'' (Some ''b'') []], 0) =
     Some (Inl ValueError, ([local_catalog ''d/b.yaml'' (Some ''b'') []], 1))"
proof -
  have w: "walk (Suc 0) folder_world 0 True ([local_catalog ''d/b.yaml'' (Some ''b'') []], 0) =
     Some (Inr [], ([local_catalog ''d/b.yaml'' (Some ''b'') []], 1))"
    by (simp add: walk_def reload_on_change_def bind_def update_modification_time_def
        local_catalog_def folder_world_def bare_world_def walk_loop.simps entries_of_def
        children_of_def dict_items_def)
  from listings_raise_on_empty_walk[OF w] w show ?thesis by simp
qed

section \<open>Construction only allocates\<close>

lemma grows_refl: "grows h h"
  by (auto simp: grows_def)

lemma grows_length: "grows h h' \<Longrightarrow> length h \<le> length h'"
  by (simp add: grows_def prefix_length_le)

lemma grows_nth: "grows h h' \<Longrightarrow> i < length h \<Longrightarrow> h' ! i = h ! i"
  by (auto simp: grows_def prefix_def nth_append)

lemma grows_trans:
  assumes "grows h1 h2" and "grows h2 h3"
  shows "grows h1 h3"
proof -
  have "prefix h1 h3" using assms by (auto simp: grows_def)
  moreover have "\<not> is_CollectionState (variant (state (h3 ! i)))"
    if "length h1 \<le> i" "i < length h3" for i
  proof (cases "i < length h2")
    case True
    then have "h3 ! i = h2 ! i" using assms(2) by (simp add: grows_nth)
    then show ?thesis using assms(1) that True by (simp add: grows_def)
  next
    case False
    then show ?thesis using assms(2) that by (simp add: grows_def)
  qed
  ultimately show ?thesis by (simp add: grows_def)
qed

lemma grows_snoc:
  "\<not> is_CollectionState (variant (state c)) \<Longrightarrow> grows h (h @ [c])"
  by (auto simp: grows_def nth_append)

lemma for_each_allocates:
  assumes step: "\<And>x s r s'. f x s = Some (r, s') \<Longrightarrow>
            grows s s' \<and> (\<forall>a. r = Inr a \<longrightarrow> length s \<le> a \<and> a < length s' \<and> P x (s' ! a))"
    and "for_each f xs s = Some (r, s')"
  shows "grows s s' \<and>
         (\<forall>as. r = Inr as \<longrightarrow>
            length as = length xs \<and> distinct as \<and> (\<forall>a \<in> set as. length s \<le> a \<and> a < length s') \<and>
            list_all2 (\<lambda>x a. P x (s' ! a)) xs as)"
  using assms(2)
proof (induction xs arbitrary: s r s')
  case Nil
  then show ?case by (auto simp: grows_refl)
next
  case (Cons x xs)
  show ?case
  proof (cases "f x s")
    case None
    with Cons.prems show ?thesis by simp
  next
    case (Some p)
    obtain r1 s1 where p: "p = (r1, s1)" by (cases p)
    from step[OF Some[unfolded p]]
    have s1: "grows s s1" "\<forall>a. r1 = Inr a \<longrightarrow> length s \<le> a \<and> a < length s1 \<and> P x (s1 ! a)"
      by simp_all
    show ?thesis
    proof (cases r1)
      case (Inl e)
      with Cons.prems Some p s1 show ?thesis by auto
    next
      case (Inr y)
      show ?thesis
      proof (cases "for_each f xs s1")
        case None
        with Cons.prems Some p Inr show ?thesis by simp
      next
        case (Some q)
        obtain r2 s2 where q: "q = (r2, s2)" by (cases q)
        from Cons.IH[OF Some[unfolded q]]
        have s2: "grows s1 s2"
          "\<forall>as. r2 = Inr as \<longrightarrow> length as = length xs \<and> distinct as \<and>
             (\<forall>a \<in> set as. length s1 \<le> a \<and> a < length s2) \<and>
             list_all2 (\<lambda>x a. P x (s2 ! a)) xs as" by simp_all
        have len: "length s \<le> length s1" "length s1 \<le> length s2"
          using s1(1) s2(1) by (simp_all add: grows_length)
        have pre: "grows s s2" using s1(1) s2(1) by (rule grows_trans)
        show ?thesis
        proof (cases r2)
          case (Inl e)
          with Cons.prems \<open>f x s = Some p\<close> p Inr Some q pre show ?thesis by auto
        next
          case r2: (Inr ys)
          with Cons.prems \<open>f x s = Some p\<close> p Inr Some q
          have r: "r = Inr (y # ys)" and s': "s' = s2" by simp_all
          from s1(2) Inr have y: "length s \<le> y" "y < length s1" "P x (s1 ! y)" by simp_all
          from s2(2) r2 have ys: "length ys = length xs" "distinct ys"
            "\<forall>a \<in> set ys. length s1 \<le> a \<and> a < length s2"
            "list_all2 (\<lambda>x a. P x (s2 ! a)) xs ys" by simp_all
          from y ys(3) have "y \<notin> set ys" by auto
          moreover have "P x (s2 ! y)" using y(2,3) grows_nth[OF s2(1)] by simp
          ultimately show ?thesis using y ys len pre unfolding r s' by auto
        qed
      qed
    qed
  qed
qed

lemma create_state_Uri:
  "create_state n w nm (Uri u) t h = Some (r, h') \<Longrightarrow>
   h' = h \<and> (\<forall>st. r = Inr st \<longrightarrow> \<not> is_CollectionState (variant st) \<and> observable st = Uri u)"
  by (auto simp: create_state.simps State_init_def Let_def split: if_splits)

lemma refresh_plain_step:
  assumes init: "\<And>u nm t h r h'. Catalog_init n w [u] nm t h = Some (r, h') \<Longrightarrow>
            grows h h' \<and> (\<forall>a. r = Inr a \<longrightarrow> length h \<le> a \<and> a < length h' \<and>
                                  observable (state (h' ! a)) = Uri u)"
    and "refresh n w st h = Some (r, h')"
    and "\<not> is_CollectionState (variant st)"
  shows "grows h h' \<and>
         (\<forall>snap st'. r = Inr (snap, st') \<longrightarrow>
            \<not> is_CollectionState (variant st') \<and> observable st' = observable st)"
proof (cases "variant st")
  case (DirectoryState old)
  show ?thesis
  proof (cases "observable st")
    case (Uris us)
    with DirectoryState assms(2) show ?thesis by (auto simp: refresh.simps grows_refl)
  next
    case (Uri p)
    show ?thesis
    proof (cases "listdir w p")
      case (Inl e)
      with DirectoryState Uri assms(2) show ?thesis by (auto simp: refresh.simps grows_refl)
    next
      case (Inr fs)
      let ?sel = "filter (\<lambda>f. endswith f ''.yml'' \<or> endswith f ''.yaml'') fs"
      let ?loop = "for_each (\<lambda>f. Catalog_init n w [path_join w p f] None 1) ?sel h"
      from DirectoryState Uri Inr assms(2) obtain r0 where
        loop: "?loop = Some (r0, h')"
        and r: "\<forall>snap st'. r = Inr (snap, st') \<longrightarrow>
                  (\<exists>cs. variant st' = DirectoryState cs) \<and> observable st' = observable st"
        by (auto simp: refresh.simps bind_def split: option.splits sum.splits prod.splits)
      have "grows h h'"
        using for_each_allocates[of "\<lambda>f. Catalog_init n w [path_join w p f] None 1"
            "\<lambda>f c. observable (state c) = Uri (path_join w p f)", OF init loop]
        by simp
      with r show ?thesis by auto
    qed
  qed
next
  case (RemoteState b i s)
  with assms(2) show ?thesis by (auto simp: refresh.simps grows_refl split: sum.splits)
next
  case LocalState
  with assms(2) show ?thesis by (auto simp: refresh.simps grows_refl split: sum.splits)
next
  case (CollectionState cs)
  with assms(3) show ?thesis by simp
qed

lemma Catalog_init_single:
  "Catalog_init n w [u] nm t h = Some (r, h') \<Longrightarrow>
   grows h h' \<and> (\<forall>a. r = Inr a \<longrightarrow> length h \<le> a \<and> a < length h' \<and>
                         observable (state (h' ! a)) = Uri u)"
proof (induction n arbitrary: u nm t h r h')
  case 0
  then show ?case by simp
next
  case (Suc n)
  from Suc.prems have c: "bind (create_state n w nm (Uri u) t h) (\<lambda>st h1.
     bind (refresh n w st h1) (\<lambda>((nm', ch, en, pl), st') h2.
       Some (Inr (length h2),
             h2 @ [\<lparr>state = st', name = nm', children = ch, entries = en, plugins = pl\<rparr>])))
     = Some (r, h')"
    by simp
  show ?case
  proof (cases "create_state n w nm (Uri u) t h")
    case None
    with c show ?thesis by (simp add: bind_def)
  next
    case (Some p)
    obtain r1 h1 where p: "p = (r1, h1)" by (cases p)
    from create_state_Uri[OF Some[unfolded p]]
    have h1: "h1 = h"
      and nc: "\<forall>st. r1 = Inr st \<longrightarrow> \<not> is_CollectionState (variant st) \<and> observable st = Uri u"
      by simp_all
    show ?thesis
    proof (cases r1)
      case (Inl e)
      with c Some p h1 show ?thesis by (auto simp: bind_def grows_refl)
    next
      case (Inr st)
      with nc have st: "\<not> is_CollectionState (variant st)" and ob: "observable st = Uri u"
        by simp_all
      show ?thesis
      proof (cases "refresh n w st h")
        case None
        with c \<open>create_state n w nm (Uri u) t h = Some p\<close> p h1 Inr show ?thesis
          by (simp add: bind_def)
      next
        case (Some q)
        obtain r2 h2 where q: "q = (r2, h2)" by (cases q)
        from refresh_plain_step[OF Suc.IH Some[unfolded q] st]
        have g: "grows h h2"
          and nc2: "\<forall>snap st'. r2 = Inr (snap, st') \<longrightarrow>
                     \<not> is_CollectionState (variant st') \<and> observable st' = observable st"
          by simp_all
        show ?thesis
        proof (cases r2)
          case (Inl e)
          with c \<open>create_state n w nm (Uri u) t h = Some p\<close> p h1 Inr Some q g show ?thesis
            by (auto simp: bind_def)
        next
          case r2: (Inr x)
          obtain nm' ch en pl st' where x: "x = ((nm', ch, en, pl), st')"
            by (cases x) auto
          let ?c = "\<lparr>state = st', name = nm', children = ch, entries = en, plugins = pl\<rparr>"
          from c \<open>create_state n w nm (Uri u) t h = Some p\<close> p h1 Inr Some q r2 x
          have r: "r = Inr (length h2)" and h': "h' = h2 @ [?c]"
            by (simp_all add: bind_def)
          from nc2 r2 x have "\<not> is_CollectionState (variant (state ?c))"
            and "observable (state ?c) = Uri u" using ob by simp_all
          moreover from this(1) have "grows h2 (h2 @ [?c])" by (rule grows_snoc)
          with g have "grows h h'" unfolding h' by (rule grows_trans)
          moreover have "length h \<le> length h2" using g by (rule grows_length)
          ultimately show ?thesis unfolding r h' by simp
        qed
      qed
    qed
  qed
qed

lemma refresh_plain:
  assumes "refresh n w st h = Some (r, h')" and "\<not> is_CollectionState (variant st)"
  shows "grows h h' \<and>
         (\<forall>snap st'. r = Inr (snap, st') \<longrightarrow>
            \<not> is_CollectionState (variant st') \<and> observable st' = observable st)"
  by (rule refresh_plain_step[where n = n and w = w, OF _ assms]) (rule Catalog_init_single)

lemma DirectoryState_refresh_result:
  assumes "refresh n w st h = Some (Inr ((nm, ch, en, pl), st'), h')"
    and "variant st = DirectoryState old"
  shows "\<exists>p fs cs. observable st = Uri p \<and> listdir w p = Inr fs \<and>
           for_each (\<lambda>f. Catalog_init n w [path_join w p f] None 1) (filter is_config_file fs) h
             = Some (Inr cs, h') \<and>
           st' = st\<lparr>variant := DirectoryState cs\<rparr> \<and>
           nm = State.name st \<and> ch = children_by_name h' cs \<and> en = [] \<and> pl = [] \<and>
           length cs = length (filter is_config_file fs) \<and> distinct cs \<and>
           (\<forall>c \<in> set cs. length h \<le> c \<and> c < length h') \<and> grows h h' \<and>
           list_all2 (\<lambda>f c. observable (state (h' ! c)) = Uri (path_join w p f))
             (filter is_config_file fs) cs"
proof -
  from assms obtain p where p: "observable st = Uri p"
    by (cases "observable st") (auto simp: refresh.simps)
  from assms p obtain fs where fs: "listdir w p = Inr fs"
    by (cases "listdir w p") (auto simp: refresh.simps)
  let ?loop = "for_each (\<lambda>f. Catalog_init n w [path_join w p f] None 1) (filter is_config_file fs) h"
  from assms p fs obtain cs where loop: "?loop = Some (Inr cs, h')"
    and res: "st' = st\<lparr>variant := DirectoryState cs\<rparr>" "nm = State.name st"
      "ch = children_by_name h' cs" "en = []" "pl = []"
    by (auto simp: refresh.simps bind_def split: option.splits sum.splits prod.splits)
  from for_each_allocates[of "\<lambda>f. Catalog_init n w [path_join w p f] None 1"
      "\<lambda>f c. observable (state c) = Uri (path_join w p f)", OF Catalog_init_single loop]
  have "grows h h'" "length cs = length (filter is_config_file fs)" "distinct cs"
    "\<forall>c \<in> set cs. length h \<le> c \<and> c < length h'"
    "list_all2 (\<lambda>f c. observable (state (h' ! c)) = Uri (path_join w p f)) (filter is_config_file fs) cs"
    by simp_all
  with p fs loop res show ?thesis by blast
qed

lemma foldl_update_map_of:
  "map_of (foldl (\<lambda>d (k, v). AList.update k v d) d kvs) = map_of d ++ map_of (rev kvs)"
proof (induction kvs arbitrary: d)
  case Nil
  then show ?case by simp
next
  case (Cons kv kvs)
  obtain k v where kv: "kv = (k, v)" by (cases kv)
  show ?case
    unfolding kv by (simp add: Cons.IH update_conv') (auto simp: map_add_def fun_eq_iff split: option.splits)
qed

lemma foldl_update_keys:
  "distinct (map fst d) \<Longrightarrow>
   distinct (map fst (foldl (\<lambda>d (k, v). AList.update k v d) d kvs)) \<and>
   fst ` set (foldl (\<lambda>d (k, v). AList.update k v d) d kvs) = fst ` set d \<union> fst ` set kvs"
proof (induction kvs arbitrary: d)
  case Nil
  then show ?case by simp
next
  case (Cons kv kvs)
  obtain k v where kv: "kv = (k, v)" by (cases kv)
  have "distinct (map fst (AList.update k v d))" using Cons.prems by (rule distinct_update)
  from Cons.IH[OF this] show ?case
    unfolding kv by (auto simp: dom_update)
qed

lemma foldl_update_distinct_keys:
  "distinct (map fst (d @ kvs)) \<Longrightarrow> foldl (\<lambda>d (k, v). AList.update k v d) d kvs = d @ kvs"
proof (induction kvs arbitrary: d)
  case Nil
  then show ?case by simp
next
  case (Cons kv kvs)
  obtain k v where kv: "kv = (k, v)" by (cases kv)
  from Cons.prems kv have "k \<notin> fst ` set d" by auto
  then have u: "AList.update k v d = d @ [(k, v)]"
    by (induction d) auto
  from Cons.prems kv have "distinct (map fst ((d @ [(k, v)]) @ kvs))" by simp
  from Cons.IH[OF this] show ?case unfolding kv by (simp add: u)
qed

lemma dict_of_map_of: "map_of (dict_of kvs) = map_of (rev kvs)"
  by (simp add: dict_of_def foldl_update_map_of)

lemma dict_of_keys: "distinct (map fst (dict_of kvs)) \<and> fst ` set (dict_of kvs) = fst ` set kvs"
  using foldl_update_keys[of "[]" kvs] by (simp add: dict_of_def)

lemma dict_of_distinct: "distinct (map fst kvs) \<Longrightarrow> dict_of kvs = kvs"
  using foldl_update_distinct_keys[of "[]" kvs] by (simp add: dict_of_def)

lemma dict_of_values: "snd ` set (dict_of kvs) \<subseteq> snd ` set kvs"
proof
  fix v assume "v \<in> snd ` set (dict_of kvs)"
  then obtain k where kv: "(k, v) \<in> set (dict_of kvs)" by force
  have "distinct (map fst (dict_of kvs))" using dict_of_keys by blast
  with kv have "map_of (dict_of kvs) k = Some v" by simp
  then have "map_of (rev kvs) k = Some v" by (simp add: dict_of_map_of)
  then have "(k, v) \<in> set (rev kvs)" by (rule map_of_SomeD)
  then show "v \<in> snd ` set kvs" by force
qed

section \<open>What a reload can touch\<close>

lemma unchanged_from_refl: "unchanged_from b h h"
  by (simp add: unchanged_from_def)

lemma unchanged_from_trans:
  "unchanged_from b h1 h2 \<Longrightarrow> unchanged_from b h2 h3 \<Longrightarrow> unchanged_from b h1 h3"
  by (auto simp: unchanged_from_def)

lemma unchanged_from_mono: "unchanged_from b h h' \<Longrightarrow> b \<le> b' \<Longrightarrow> unchanged_from b' h h'"
  by (auto simp: unchanged_from_def)

lemma grows_unchanged_from: "grows h h' \<Longrightarrow> unchanged_from b h h'"
  by (simp add: unchanged_from_def grows_length grows_nth)

lemma grows_wf_heap:
  assumes "grows h h'" and "wf_heap h"
  shows "wf_heap h'"
  unfolding wf_heap_def
proof (intro allI impI)
  fix i cs
  assume i: "i < length h'" and v: "variant (state (h' ! i)) = CollectionState cs"
  show "\<forall>c \<in> set cs. c < i"
  proof (cases "i < length h")
    case True
    then have "h' ! i = h ! i" using assms(1) by (simp add: grows_nth)
    with v True assms(2) show ?thesis by (simp add: wf_heap_def)
  next
    case False
    with i assms(1) have "\<not> is_CollectionState (variant (state (h' ! i)))"
      by (simp add: grows_def)
    with v show ?thesis by simp
  qed
qed

lemma for_each_preserves:
  assumes step: "\<And>x s r s'. x \<in> set xs \<Longrightarrow> I s \<Longrightarrow> f x s = Some (r, s') \<Longrightarrow> I s' \<and> R s s'"
    and refl: "\<And>s. R s s"
    and trans: "\<And>s1 s2 s3. R s1 s2 \<Longrightarrow> R s2 s3 \<Longrightarrow> R s1 s3"
    and "I s" and "for_each f xs s = Some (r, s')"
  shows "I s' \<and> R s s'"
  using step assms(4,5)
proof (induction xs arbitrary: s r s')
  case Nil
  then show ?case using refl by auto
next
  case (Cons x xs)
  show ?case
  proof (cases "f x s")
    case None
    with Cons.prems(3) show ?thesis by simp
  next
    case (Some p)
    obtain r1 s1 where p: "p = (r1, s1)" by (cases p)
    from Cons.prems(1)[OF _ Cons.prems(2) Some[unfolded p]]
    have s1: "I s1" "R s s1" by simp_all
    show ?thesis
    proof (cases r1)
      case (Inl e)
      with Cons.prems(3) Some p s1 show ?thesis by auto
    next
      case (Inr y)
      show ?thesis
      proof (cases "for_each f xs s1")
        case None
        with Cons.prems(3) Some p Inr show ?thesis by simp
      next
        case (Some q)
        obtain r2 s2 where q: "q = (r2, s2)" by (cases q)
        have "I s2 \<and> R s1 s2"
          using Cons.prems(1) by (intro Cons.IH[OF _ s1(1) Some[unfolded q]]) auto
        then have s2: "I s2" "R s s2" using s1(2) trans by blast+
        from Cons.prems(3) \<open>f x s = Some p\<close> p Inr Some q have "s' = s2"
          by (cases r2) auto
        with s2 show ?thesis by simp
      qed
    qed
  qed
qed

lemma refresh_frame_step:
  assumes rel: "\<And>a h r h'. reload n w a h = Some (r, h') \<Longrightarrow> wf_heap h \<Longrightarrow>
            wf_heap h' \<and> unchanged_from (Suc a) h h'"
    and "refresh n w st h = Some (r, h')"
    and "wf_heap h"
    and "\<forall>cs. variant st = CollectionState cs \<longrightarrow> (\<forall>c \<in> set cs. c < b)"
  shows "wf_heap h' \<and> unchanged_from b h h' \<and>
         (\<forall>snap st'. r = Inr (snap, st') \<longrightarrow>
            (\<forall>cs. variant st' = CollectionState cs \<longrightarrow> variant st = CollectionState cs))"
proof (cases "is_CollectionState (variant st)")
  case False
  from refresh_plain[OF assms(2) False]
  have "grows h h'"
    and "\<forall>snap st'. r = Inr (snap, st') \<longrightarrow> \<not> is_CollectionState (variant st')"
    by simp_all
  then show ?thesis
    using assms(3) by (auto simp: grows_wf_heap grows_unchanged_from)
next
  case True
  then obtain cs where cs: "variant st = CollectionState cs" by (cases "variant st") auto
  with assms(4) have lt: "\<forall>c \<in> set cs. c < b" by simp
  from assms(2) cs obtain r0 where loop: "for_each (\<lambda>c. reload n w c) cs h = Some (r0, h')"
    and res: "\<forall>snap st'. r = Inr (snap, st') \<longrightarrow> st' = st"
    by (auto simp: refresh.simps bind_def split: option.splits sum.splits prod.splits)
  have "wf_heap h' \<and> unchanged_from b h h'"
  proof (rule for_each_preserves[where f = "\<lambda>c. reload n w c" and xs = cs and I = wf_heap
        and R = "unchanged_from b", OF _ _ _ assms(3) loop])
    fix c s r1 s1
    assume "c \<in> set cs" "wf_heap s" "reload n w c s = Some (r1, s1)"
    with rel[of c s r1 s1] lt have "wf_heap s1" "unchanged_from (Suc c) s s1" "Suc c \<le> b"
      by auto
    then show "wf_heap s1 \<and> unchanged_from b s s1"
      using unchanged_from_mono by blast
  qed (auto intro: unchanged_from_refl unchanged_from_trans)
  with res show ?thesis by auto
qed

lemma reload_frame:
  "reload n w a h = Some (r, h') \<Longrightarrow> wf_heap h \<Longrightarrow>
   wf_heap h' \<and> unchanged_from (Suc a) h h' \<and> (\<forall>e. r = Inl e \<longrightarrow> unchanged_from a h h')"
proof (induction n arbitrary: a h r h')
  case 0
  then show ?case by simp
next
  case (Suc n)
  from Suc.prems(1) have a: "a < length h"
    by (auto split: if_splits)
  let ?st = "state (h ! a)"
  from a Suc.prems(2) have lt: "\<forall>cs. variant ?st = CollectionState cs \<longrightarrow> (\<forall>c \<in> set cs. c < a)"
    by (simp add: wf_heap_def)
  show ?case
  proof (cases "refresh n w ?st h")
    case None
    with Suc.prems(1) a show ?thesis by (simp add: bind_def)
  next
    case (Some p)
    obtain r0 h0 where p: "p = (r0, h0)" by (cases p)
    have rel: "\<And>a h r h'. reload n w a h = Some (r, h') \<Longrightarrow> wf_heap h \<Longrightarrow>
            wf_heap h' \<and> unchanged_from (Suc a) h h'"
      using Suc.IH by blast
    from refresh_frame_step[OF rel Some[unfolded p] Suc.prems(2) lt]
    have f: "wf_heap h0" "unchanged_from a h h0"
      "\<forall>snap st'. r0 = Inr (snap, st') \<longrightarrow>
         (\<forall>cs. variant st' = CollectionState cs \<longrightarrow> variant ?st = CollectionState cs)"
      by simp_all
    show ?thesis
    proof (cases r0)
      case (Inl e)
      with Suc.prems(1) a Some p have "r = Inl e" "h' = h0" by (simp_all add: bind_def)
      with f show ?thesis by (auto intro: unchanged_from_mono)
    next
      case (Inr x)
      obtain nm' ch en pl st' where x: "x = ((nm', ch, en, pl), st')" by (cases x) auto
      let ?c = "\<lparr>state = st', name = nm', children = ch, entries = en, plugins = pl\<rparr>"
      from Suc.prems(1) a Some p Inr x have r: "r = Inr ()" and h': "h' = h0[a := ?c]"
        by (simp_all add: bind_def)
      have len: "length h \<le> length h0" using f(2) by (simp add: unchanged_from_def)
      have "unchanged_from (Suc a) h h'"
        using f(2) unfolding h' by (auto simp: unchanged_from_def)
      moreover have "wf_heap h'"
        unfolding wf_heap_def
      proof (intro allI impI)
        fix i cs
        assume i: "i < length h'" and v: "variant (state (h' ! i)) = CollectionState cs"
        show "\<forall>c \<in> set cs. c < i"
        proof (cases "i = a")
          case True
          with v a len have "variant st' = CollectionState cs" unfolding h' by simp
          with f(3) Inr x have "variant ?st = CollectionState cs" by simp
          with lt True show ?thesis by simp
        next
          case False
          with v i have "variant (state (h0 ! i)) = CollectionState cs" "i < length h0"
            unfolding h' by simp_all
          with f(1) show ?thesis by (simp add: wf_heap_def)
        qed
      qed
      ultimately show ?thesis using r by simp
    qed
  qed
qed

lemma Catalog_init_wf_heap:
  assumes "Catalog_init n w args nm t h = Some (r, h')" and "wf_heap h"
  shows "wf_heap h'"
proof (cases n)
  case 0
  with assms(1) show ?thesis by simp
next
  case (Suc m)
  show ?thesis
  proof (cases "length args = 1")
    case True
    then obtain u where "args = [u]" by (cases args) auto
    with assms(1) have "grows h h'" using Catalog_init_single by blast
    then show ?thesis using assms(2) by (rule grows_wf_heap)
  next
    case False
    let ?obs = "Uris args"
    let ?mk = "for_each (\<lambda>uri. Catalog_init m w [uri] None 1) args h"
    from assms(1) Suc False have c: "bind (create_state m w nm ?obs t h) (\<lambda>st h1.
       bind (refresh m w st h1) (\<lambda>((nm', ch, en, pl), st') h2.
         Some (Inr (length h2),
               h2 @ [\<lparr>state = st', name = nm', children = ch, entries = en, plugins = pl\<rparr>])))
       = Some (r, h')"
      by simp
    have cs_def: "create_state m w nm ?obs t h =
        bind ?mk (\<lambda>cs h'. Some (Inr (State_init w nm ?obs t (CollectionState cs)), h'))"
      by (simp add: create_state.simps)
    show ?thesis
    proof (cases ?mk)
      case None
      with c cs_def show ?thesis by (simp add: bind_def)
    next
      case (Some p)
      obtain r1 h1 where p: "p = (r1, h1)" by (cases p)
      from for_each_allocates[of "\<lambda>uri. Catalog_init m w [uri] None 1"
          "\<lambda>u c. observable (state c) = Uri u", OF Catalog_init_single Some[unfolded p]]
      have g: "grows h h1"
        and bound: "\<forall>as. r1 = Inr as \<longrightarrow> (\<forall>a \<in> set as. a < length h1)"
        by simp_all
      from g assms(2) have wf1: "wf_heap h1" by (rule grows_wf_heap)
      show ?thesis
      proof (cases r1)
        case (Inl e)
        with c cs_def Some p have "h' = h1" by (simp add: bind_def)
        with wf1 show ?thesis by simp
      next
        case (Inr cs)
        let ?st = "State_init w nm ?obs t (CollectionState cs)"
        from bound Inr have lt: "\<forall>cs'. variant ?st = CollectionState cs' \<longrightarrow> (\<forall>c \<in> set cs'. c < length h1)"
          by (simp add: State_init_def)
        from c cs_def Some p Inr have c2: "bind (refresh m w ?st h1) (\<lambda>((nm', ch, en, pl), st') h2.
           Some (Inr (length h2),
                 h2 @ [\<lparr>state = st', name = nm', children = ch, entries = en, plugins = pl\<rparr>]))
           = Some (r, h')"
          by (simp add: bind_def)
        show ?thesis
        proof (cases "refresh m w ?st h1")
          case None
          with c2 show ?thesis by (simp add: bind_def)
        next
          case (Some q)
          obtain r2 h2 where q: "q = (r2, h2)" by (cases q)
          have rel: "\<And>a h r h'. reload m w a h = Some (r, h') \<Longrightarrow> wf_heap h \<Longrightarrow>
            wf_heap h' \<and> unchanged_from (Suc a) h h'"
            using reload_frame by blast
          from refresh_frame_step[OF rel Some[unfolded q] wf1 lt]
          have f: "wf_heap h2" "unchanged_from (length h1) h1 h2"
            "\<forall>snap st'. r2 = Inr (snap, st') \<longrightarrow>
               (\<forall>cs'. variant st' = CollectionState cs' \<longrightarrow> variant ?st = CollectionState cs')"
            by simp_all
          show ?thesis
          proof (cases r2)
            case (Inl e)
            with c2 Some q have "h' = h2" by (simp add: bind_def)
            with f(1) show ?thesis by simp
          next
            case r2: (Inr x)
            obtain nm' ch en pl st' where x: "x = ((nm', ch, en, pl), st')" by (cases x) auto
            let ?c = "\<lparr>state = st', name = nm', children = ch, entries = en, plugins = pl\<rparr>"
            from c2 Some q r2 x have h': "h' = h2 @ [?c]" by (simp add: bind_def)
            have len: "length h1 \<le> length h2" using f(2) by (simp add: unchanged_from_def)
            show ?thesis
              unfolding wf_heap_def
            proof (intro allI impI)
              fix i cs'
              assume i: "i < length h'" and v: "variant (state (h' ! i)) = CollectionState cs'"
              show "\<forall>c \<in> set cs'. c < i"
              proof (cases "i < length h2")
                case True
                with v have "variant (state (h2 ! i)) = CollectionState cs'"
                  unfolding h' by (simp add: nth_append)
                with f(1) True show ?thesis by (simp add: wf_heap_def)
              next
                case False
                with i have i2: "i = length h2" unfolding h' by simp
                with v have "variant st' = CollectionState cs'" unfolding h' by simp
                with f(3) r2 x have "variant ?st = CollectionState cs'" by simp
                with lt len i2 show ?thesis by auto
              qed
            qed
          qed
        qed
      qed
    qed
  qed
qed

lemma wf_heap_Nil: "wf_heap []"
  by (simp add: wf_heap_def)

section \<open>Reload commits a snapshot or keeps the catalog\<close>

text \<open>
  C1 (as amended). In a well-formed heap, \<^verbatim>\<open>reload()\<close> either succeeds, and then
  the name, children, entries and plugins of the catalog are exactly the snapshot its
  watcher's \<^verbatim>\<open>refresh()\<close> returned; or it raises the error \<^verbatim>\<open>refresh()\<close> raised,
  and then the catalog object itself, and every object at a higher address, is what
  it was before the call. If the watcher is not a Collection, no object that existed
  before the call has changed at all. If it is a Collection, the heap is the one left
  by reloading the members in order up to the member that failed: the members
  reloaded before it keep their new snapshots.
\<close>

theorem reload_commits_snapshot_or_keeps_catalog:
  assumes "wf_heap h" and "reload (Suc n) w a h = Some (r, h')"
  shows "case r of
           Inr u \<Rightarrow>
             (\<exists>nm ch en pl st' h0.
                refresh n w (state (h ! a)) h = Some (Inr ((nm, ch, en, pl), st'), h0) \<and>
                a < length h' \<and> Catalog.name (h' ! a) = nm \<and> children (h' ! a) = ch \<and>
                entries (h' ! a) = en \<and> plugins (h' ! a) = pl)
         | Inl e \<Rightarrow>
             refresh n w (state (h ! a)) h = Some (Inl e, h') \<and> a < length h' \<and> h' ! a = h ! a \<and>
             unchanged_from a h h' \<and>
             (\<not> is_CollectionState (variant (state (h ! a))) \<longrightarrow> prefix h h') \<and>
             (\<forall>cs. variant (state (h ! a)) = CollectionState cs \<longrightarrow>
                for_each (\<lambda>c. reload n w c) cs h = Some (Inl e, h'))"
proof -
  from assms(2) have a: "a < length h" by (auto split: if_splits)
  from reload_frame[OF assms(2,1)]
  have f: "unchanged_from (Suc a) h h'" "\<forall>e. r = Inl e \<longrightarrow> unchanged_from a h h'" by simp_all
  from f(1) a have a': "a < length h'" by (simp add: unchanged_from_def)
  show ?thesis
  proof (cases r)
    case (Inl e)
    from f(2) Inl have u: "unchanged_from a h h'" by simp
    with a have same: "h' ! a = h ! a" by (simp add: unchanged_from_def)
    from assms(2) a Inl have rf: "refresh n w (state (h ! a)) h = Some (Inl e, h')"
      by (auto simp: bind_def split: option.splits sum.splits prod.splits)
    have plain: "prefix h h'" if "\<not> is_CollectionState (variant (state (h ! a)))"
      using refresh_plain[OF rf that] by (simp add: grows_def)
    have coll: "for_each (\<lambda>c. reload n w c) cs h = Some (Inl e, h')"
      if "variant (state (h ! a)) = CollectionState cs" for cs
      using rf that
      by (auto simp: refresh.simps bind_def split: option.splits sum.splits prod.splits)
    from same rf u plain coll Inl a' show ?thesis by simp
  next
    case (Inr u)
    with assms(2) a obtain nm ch en pl st' h0 where
      "refresh n w (state (h ! a)) h = Some (Inr ((nm, ch, en, pl), st'), h0)"
      "h' = h0[a := \<lparr>state = st', name = nm, children = ch, entries = en, plugins = pl\<rparr>]"
      by (auto simp: bind_def split: option.splits sum.splits prod.splits)
    with a' Inr show ?thesis by auto
  qed
qed

lemmas heap_eval = refresh.simps create_state.simps bind_def LocalState_refresh_def State_init_def
  children_by_name_def dict_of_def startswith_def endswith_def suffix_to_prefix
  folder_world_def bare_world_def local_catalog_def

lemma collection_heap_built:
  "Catalog_init (Suc (Suc 0)) folder_world [''d/a.yml'', ''d/b.yaml''] None 1 [] =
     Some (Inr 2, collection_heap)"
  by (simp add: heap_eval collection_heap_def)

lemma wf_heap_broken_heap: "wf_heap broken_heap"
  by (auto simp: wf_heap_def broken_heap_def local_catalog_def less_Suc_eq nth_Cons')

theorem reload_commits_snapshot_or_keeps_catalog_witness:
  "wf_heap broken_heap \<and>
   reload (Suc 0) folder_world 1 broken_heap = Some (Inl (OSError ''gone.yml''), broken_heap) \<and>
   refresh 0 folder_world (state (broken_heap ! 1)) broken_heap =
     Some (Inl (OSError ''gone.yml''), broken_heap) \<and>
   prefix broken_heap broken_heap \<and>
   reload (Suc 0) folder_world 0 broken_heap =
     Some (Inr (), broken_heap[0 := local_catalog ''d/a.yml'' (Some ''a'') [(''x'', ''d/a.yml'')]])"
proof -
  let ?h' = "broken_heap[0 := local_catalog ''d/a.yml'' (Some ''a'') [(''x'', ''d/a.yml'')]]"
  have f: "reload (Suc 0) folder_world 1 broken_heap = Some (Inl (OSError ''gone.yml''), broken_heap)"
    by (simp add: heap_eval broken_heap_def)
  have s: "reload (Suc 0) folder_world 0 broken_heap = Some (Inr (), ?h')"
    by (simp add: heap_eval broken_heap_def)
  have v: "\<not> is_CollectionState (variant (state (broken_heap ! 1)))"
    by (simp add: broken_heap_def local_catalog_def)
  from reload_commits_snapshot_or_keeps_catalog[OF wf_heap_broken_heap f] v
  have "refresh 0 folder_world (state (broken_heap ! 1)) broken_heap =
          Some (Inl (OSError ''gone.yml''), broken_heap) \<and> prefix broken_heap broken_heap"
    by simp
  with wf_heap_broken_heap f s show ?thesis by simp
qed

text \<open>
  C1 as stated fails for a catalog over a Collection: the failed \<^verbatim>\<open>reload()\<close> of
  the collection of \<open>broken_heap\<close> raises the error of its second member after the
  first member has been reloaded in place. The children map of the collection still
  holds the same two objects, but the first of them has a new name and a new entry,
  and a traversal from the collection yields a triple it did not yield before.
\<close>

theorem failed_collection_reload_keeps_member_update:
  "reload (Suc (Suc 0)) folder_world 2 broken_heap =
     Some (Inl (OSError ''gone.yml''),
           broken_heap[0 := local_catalog ''d/a.yml'' (Some ''a'') [(''x'', ''d/a.yml'')]]) \<and>
   children_of broken_heap 2 = [(Some ''old'', 0), (Some ''gone'', 1)] \<and>
   broken_heap ! 0 = local_catalog ''d/a.yml'' (Some ''old'') [] \<and>
   (broken_heap[0 := local_catalog ''d/a.yml'' (Some ''a'') [(''x'', ''d/a.yml'')]]) ! 0 =
     local_catalog ''d/a.yml'' (Some ''a'') [(''x'', ''d/a.yml'')] \<and>
   local_catalog ''d/a.yml'' (Some ''a'') [(''x'', ''d/a.yml'')] \<noteq> local_catalog ''d/a.yml'' (Some ''old'') [] \<and>
   walk_loop broken_heap True {} [2] = [Leaf 1 ''y'' ''gone.yml''] \<and>
   walk_loop (broken_heap[0 := local_catalog ''d/a.yml'' (Some ''a'') [(''x'', ''d/a.yml'')]]) True {} [2] =
     [Leaf 0 ''x'' ''d/a.yml'', Leaf 1 ''y'' ''gone.yml'']"
proof -
  have f: "reload (Suc (Suc 0)) folder_world 2 broken_heap =
     Some (Inl (OSError ''gone.yml''),
           broken_heap[0 := local_catalog ''d/a.yml'' (Some ''a'') [(''x'', ''d/a.yml'')]])"
    by (simp add: heap_eval broken_heap_def)
  have c: "children_of broken_heap 2 = [(Some ''old'', 0), (Some ''gone'', 1)]"
    by (simp add: children_of_def broken_heap_def)
  have o: "broken_heap ! 0 = local_catalog ''d/a.yml'' (Some ''old'') []"
    "(broken_heap[0 := local_catalog ''d/a.yml'' (Some ''a'') [(''x'', ''d/a.yml'')]]) ! 0 =
     local_catalog ''d/a.yml'' (Some ''a'') [(''x'', ''d/a.yml'')]"
    "local_catalog ''d/a.yml'' (Some ''a'') [(''x'', ''d/a.yml'')] \<noteq> local_catalog ''d/a.yml'' (Some ''old'') []"
    by (simp_all add: broken_heap_def local_catalog_def)
  have w1: "walk_loop broken_heap True {} [2] = [Leaf 1 ''y'' ''gone.yml'']"
    by (simp add: walk_loop.simps entries_of_def children_of_def dict_items_def
          broken_heap_def local_catalog_def)
  have w2: "walk_loop (broken_heap[0 := local_catalog ''d/a.yml'' (Some ''a'') [(''x'', ''d/a.yml'')]]) True {} [2] =
     [Leaf 0 ''x'' ''d/a.yml'', Leaf 1 ''y'' ''gone.yml'']"
    by (simp add: walk_loop.simps entries_of_def children_of_def dict_items_def
          broken_heap_def local_catalog_def)
  from f c o w1 w2 show ?thesis by simp
qed

section \<open>Member objects across a refresh\<close>

text \<open>
  C5 (as amended). A successful \<^verbatim>\<open>refresh()\<close> of a Directory watcher replaces the
  member catalogs wholesale: the members and the values of the children map are
  objects allocated by this refresh, and every object that existed before is
  untouched. A successful \<^verbatim>\<open>refresh()\<close> of a Collection watcher keeps its member
  objects: the state is unchanged, the values of the children map are members, and
  the heap is the result of reloading each member in place, in order.
\<close>

theorem refresh_directory_allocates_collection_keeps_members:
  assumes "refresh n w st h = Some (Inr ((nm, ch, en, pl), st'), h')"
  shows "(\<forall>old. variant st = DirectoryState old \<longrightarrow>
            (\<exists>cs. variant st' = DirectoryState cs \<and> snd ` set ch \<subseteq> set cs \<and>
                  (\<forall>c \<in> set cs. length h \<le> c \<and> c < length h') \<and> prefix h h'))
       \<and> (\<forall>cs. variant st = CollectionState cs \<longrightarrow>
            st' = st \<and> snd ` set ch \<subseteq> set cs \<and>
            (\<exists>us. for_each (\<lambda>c. reload n w c) cs h = Some (Inr us, h')))"
proof -
  have D: "\<exists>cs. variant st' = DirectoryState cs \<and> snd ` set ch \<subseteq> set cs \<and>
                  (\<forall>c \<in> set cs. length h \<le> c \<and> c < length h') \<and> prefix h h'"
    if "variant st = DirectoryState old" for old
  proof -
    from DirectoryState_refresh_result[OF assms that] obtain cs where
      cs: "st' = st\<lparr>variant := DirectoryState cs\<rparr>" "ch = children_by_name h' cs"
        "\<forall>c \<in> set cs. length h \<le> c \<and> c < length h'" "grows h h'"
      by blast
    have "snd ` set ch \<subseteq> set cs"
      using dict_of_values[of "map (\<lambda>c. (Catalog.name (h' ! c), c)) cs"]
      unfolding cs(2) children_by_name_def by force
    with cs show ?thesis by (auto simp: grows_def)
  qed
  have C: "st' = st \<and> snd ` set ch \<subseteq> set cs \<and>
            (\<exists>us. for_each (\<lambda>c. reload n w c) cs h = Some (Inr us, h'))"
    if v: "variant st = CollectionState cs" for cs
  proof -
    from v assms obtain us where loop: "for_each (\<lambda>c. reload n w c) cs h = Some (Inr us, h')"
      and res: "st' = st" "ch = children_by_name h' cs"
      by (auto simp: refresh.simps bind_def split: option.splits sum.splits prod.splits)
    have "snd ` set ch \<subseteq> set cs"
      using dict_of_values[of "map (\<lambda>c. (Catalog.name (h' ! c), c)) cs"]
      unfolding res(2) children_by_name_def by force
    with loop res show ?thesis by blast
  qed
  from D C show ?thesis by blast
qed

theorem refresh_directory_allocates_collection_keeps_members_witness:
  "refresh (Suc 0) folder_world (directory_state ''d'' [0, 1]) collection_heap =
     Some (Inr ((None, [(Some ''a'', 3), (Some ''b'', 4)], [], []), directory_state ''d'' [3, 4]),
           collection_heap @ [local_catalog ''d/a.yml'' (Some ''a'') [(''x'', ''d/a.yml'')],
                              local_catalog ''d/b.yaml'' (Some ''b'') []]) \<and>
   prefix collection_heap
     (collection_heap @ [local_catalog ''d/a.yml'' (Some ''a'') [(''x'', ''d/a.yml'')],
                         local_catalog ''d/b.yaml'' (Some ''b'') []]) \<and>
   snd ` set [(Some ''a'', 3::nat), (Some ''b'', 4)] \<subseteq> {3, 4}"
proof -
  let ?h' = "collection_heap @ [local_catalog ''d/a.yml'' (Some ''a'') [(''x'', ''d/a.yml'')],
                              local_catalog ''d/b.yaml'' (Some ''b'') []]"
  have r: "refresh (Suc 0) folder_world (directory_state ''d'' [0, 1]) collection_heap =
     Some (Inr ((None, [(Some ''a'', 3), (Some ''b'', 4)], [], []), directory_state ''d'' [3, 4]), ?h')"
    by (simp add: heap_eval collection_heap_def directory_state_def)
  from refresh_directory_allocates_collection_keeps_members[OF r] have "prefix collection_heap ?h'"
    by (simp add: directory_state_def)
  with r show ?thesis by simp
qed

text \<open>
  C5 as stated fails for a Collection watcher: refreshing the collection of
  \<open>stale_heap\<close> allocates nothing; the member at address 0 is the same object as
  before, and its name and entries have been overwritten.
\<close>

theorem collection_refresh_overwrites_member_in_place:
  "variant (state (stale_heap ! 2)) = CollectionState [0, 1] \<and>
   refresh (Suc 0) folder_world (state (stale_heap ! 2)) stale_heap =
     Some (Inr ((None, [(Some ''a'', 0), (Some ''b'', 1)], [], []), state (stale_heap ! 2)),
           stale_heap[0 := local_catalog ''d/a.yml'' (Some ''a'') [(''x'', ''d/a.yml'')]]) \<and>
   stale_heap ! 0 = local_catalog ''d/a.yml'' (Some ''old'') [] \<and>
   local_catalog ''d/a.yml'' (Some ''a'') [(''x'', ''d/a.yml'')] \<noteq> local_catalog ''d/a.yml'' (Some ''old'') []"
  by (simp add: heap_eval stale_heap_def)

section \<open>The snapshot of a directory\<close>

text \<open>
  C6 (as amended). A successful \<^verbatim>\<open>refresh()\<close> of a Directory watcher returns the
  watcher's own name, no entries and no plugins. It constructs one new catalog for
  each immediate directory entry whose name ends in \<^verbatim>\<open>.yml\<close> or \<^verbatim>\<open>.yaml\<close>
  (in listing order, each watching the joined path, no other file), and the children
  map has exactly the discovered names as keys, each name with the last catalog that
  has it. When the discovered names are pairwise distinct the map holds exactly one
  child for each selected entry.
\<close>

theorem directory_refresh_snapshot:
  assumes "refresh n w st h = Some (Inr ((nm, ch, en, pl), st'), h')"
    and "variant st = DirectoryState old"
  shows "\<exists>p fs cs. observable st = Uri p \<and> listdir w p = Inr fs \<and>
           variant st' = DirectoryState cs \<and> distinct cs \<and>
           (\<forall>c \<in> set cs. length h \<le> c \<and> c < length h') \<and>
           list_all2 (\<lambda>f c. observable (state (h' ! c)) = Uri (path_join w p f))
             (filter is_config_file fs) cs \<and>
           nm = State.name st \<and> en = [] \<and> pl = [] \<and>
           distinct (map fst ch) \<and>
           map_of ch = map_of (rev (map (\<lambda>c. (Catalog.name (h' ! c), c)) cs)) \<and>
           (distinct (map (\<lambda>c. Catalog.name (h' ! c)) cs) \<longrightarrow>
              ch = map (\<lambda>c. (Catalog.name (h' ! c), c)) cs)"
proof -
  from DirectoryState_refresh_result[OF assms] obtain p fs cs where
    r: "observable st = Uri p" "listdir w p = Inr fs" "st' = st\<lparr>variant := DirectoryState cs\<rparr>"
      "nm = State.name st" "ch = children_by_name h' cs" "en = []" "pl = []" "distinct cs"
      "list_all2 (\<lambda>f c. observable (state (h' ! c)) = Uri (path_join w p f))
             (filter is_config_file fs) cs"
      "\<forall>c \<in> set cs. length h \<le> c \<and> c < length h'"
    by blast
  let ?kvs = "map (\<lambda>c. (Catalog.name (h' ! c), c)) cs"
  have ch: "ch = dict_of ?kvs" by (simp add: r(5) children_by_name_def)
  have "distinct (map fst ch)" unfolding ch using dict_of_keys by blast
  moreover have "map_of ch = map_of (rev ?kvs)" unfolding ch by (rule dict_of_map_of)
  moreover have "ch = ?kvs" if "distinct (map (\<lambda>c. Catalog.name (h' ! c)) cs)"
    unfolding ch using that by (intro dict_of_distinct) (simp add: comp_def)
  ultimately show ?thesis using r by auto
qed

theorem directory_refresh_snapshot_witness:
  "refresh (Suc 0) folder_world (directory_state ''d'' []) [] =
     Some (Inr ((None, [(Some ''a'', 0), (Some ''b'', 1)], [], []), directory_state ''d'' [0, 1]),
           [local_catalog ''d/a.yml'' (Some ''a'') [(''x'', ''d/a.yml'')],
            local_catalog ''d/b.yaml'' (Some ''b'') []]) \<and>
   filter is_config_file [''a.yml'', ''b.yaml'', ''c.txt''] = [''a.yml'', ''b.yaml''] \<and>
   distinct (map fst [(Some ''a'', 0::nat), (Some ''b'', 1)])"
proof -
  have r: "refresh (Suc 0) folder_world (directory_state ''d'' []) [] =
     Some (Inr ((None, [(Some ''a'', 0), (Some ''b'', 1)], [], []), directory_state ''d'' [0, 1]),
           [local_catalog ''d/a.yml'' (Some ''a'') [(''x'', ''d/a.yml'')],
            local_catalog ''d/b.yaml'' (Some ''b'') []])"
    by (simp add: heap_eval directory_state_def)
  have v: "variant (directory_state ''d'' []) = DirectoryState []" by (simp add: directory_state_def)
  from directory_refresh_snapshot[OF r v] have "distinct (map fst [(Some ''a'', 0::nat), (Some ''b'', 1)])" by blast
  moreover have "filter is_config_file [''a.yml'', ''b.yaml'', ''c.txt''] = [''a.yml'', ''b.yaml'']"
    by (simp add: endswith_def suffix_to_prefix)
  ultimately show ?thesis using r by simp
qed

text \<open>
  C6 as stated fails when two selected files give the same name: the folder
  \<^verbatim>\<open>e\<close> holds \<^verbatim>\<open>a.yml\<close>, \<^verbatim>\<open>a.yaml\<close> and \<^verbatim>\<open>c.txt\<close>; two files are
  selected and two catalogs constructed, both named \<^verbatim>\<open>a\<close>, and the children map
  has one child.
\<close>

theorem directory_refresh_one_child_for_two_files:
  "listdir folder_world ''e'' = Inr [''a.yml'', ''a.yaml'', ''c.txt''] \<and>
   filter is_config_file [''a.yml'', ''a.yaml'', ''c.txt''] = [''a.yml'', ''a.yaml''] \<and>
   refresh (Suc 0) folder_world (directory_state ''e'' []) [] =
     Some (Inr ((None, [(Some ''a'', 1)], [], []), directory_state ''e'' [0, 1]),
           [local_catalog ''e/a.yml'' (Some ''a'') [(''x'', ''e/a.yml'')],
            local_catalog ''e/a.yaml'' (Some ''a'') [(''x'', ''e/a.yaml'')]]) \<and>
   length [(Some ''a'', 1::nat)] = 1"
  by (simp add: heap_eval directory_state_def)

end
